theory Spec2Isabelle
  imports Main "HOL-Library.Word" "HOL-Library.Finite_Map" "HOL-Library.Multiset"
begin

section \<open>The world the program runs in\<close>

text \<open>
  \<^verbatim>\<open>chunker.py\<close> only talks to the file system: it opens, reads, writes and closes
  files.  The model keeps the set of directories, the finite map from paths to the
  bytes of the regular files, and the list of file handles that are open right now (one
  entry per \<^verbatim>\<open>open\<close> that has not been closed).  Paths are the strings the
  program builds; they are taken to be absolute and normalised already, so that
  \<^verbatim>\<open>os.path.abspath\<close> is the identity.  Permissions, disk space and buffering
  are not modelled.
\<close>

type_synonym byte = "8 word"
type_synonym path = string

record world =
  dirs :: "path set"
  files :: "(path, byte list) fmap"
  handles :: "path list"

datatype error =
    FileNotFoundError
  | IsADirectoryError
  | NotADirectoryError
  | KeyError
  | AlreadyClosed
  | NotClosed
  | TypeError
  | AttributeError
  | ValueError

definition content :: "world \<Rightarrow> path \<Rightarrow> byte list" where
  "content w p = (case fmlookup (files w) p of None \<Rightarrow> [] | Some bs \<Rightarrow> bs)"

definition path_exists :: "world \<Rightarrow> path \<Rightarrow> bool" where
  "path_exists w p = (p \<in> dirs w \<or> fmlookup (files w) p \<noteq> None)"

definition isdir :: "world \<Rightarrow> path \<Rightarrow> bool" where
  "isdir w p = (p \<in> dirs w)"

text \<open>\<^verbatim>\<open>os.path.join(a, b)\<close> for two components, and \<^verbatim>\<open>os.path.dirname\<close>.\<close>

definition path_join :: "path \<Rightarrow> path \<Rightarrow> path" where
  "path_join a b =
     (if b \<noteq> [] \<and> hd b = CHR ''/'' then b
      else if a = [] \<or> last a = CHR ''/'' then a @ b
      else a @ ''/'' @ b)"

definition dirname :: "path \<Rightarrow> path" where
  "dirname p =
     (let h = rev (dropWhile (\<lambda>c. c \<noteq> CHR ''/'') (rev p))
      in if h \<noteq> [] \<and> (\<exists>c \<in> set h. c \<noteq> CHR ''/'')
         then rev (dropWhile (\<lambda>c. c = CHR ''/'') (rev h)) else h)"

definition basename :: "path \<Rightarrow> path" where
  "basename p = rev (takeWhile (\<lambda>c. c \<noteq> CHR ''/'') (rev p))"

text \<open>
  \<^verbatim>\<open>open(p, 'wb')\<close> creates or truncates the file; it raises when \<open>p\<close> is a
  directory or when the directory that is to hold \<open>p\<close> does not exist.
  \<^verbatim>\<open>open(p, 'rb')\<close> raises when there is no such file.
\<close>

definition open_wb :: "world \<Rightarrow> path \<Rightarrow> error + world" where
  "open_wb w p =
     (if p \<in> dirs w then Inl IsADirectoryError
      else if dirname p \<notin> dirs w then Inl FileNotFoundError
      else Inr (w\<lparr>files := fmupd p [] (files w), handles := p # handles w\<rparr>))"

definition open_rb :: "world \<Rightarrow> path \<Rightarrow> error + world" where
  "open_rb w p =
     (if p \<in> dirs w then Inl IsADirectoryError
      else if fmlookup (files w) p = None then Inl FileNotFoundError
      else Inr (w\<lparr>handles := p # handles w\<rparr>))"

definition release :: "world \<Rightarrow> path \<Rightarrow> world" where
  "release w p = w\<lparr>handles := remove1 p (handles w)\<rparr>"

definition append_bytes :: "world \<Rightarrow> path \<Rightarrow> byte list \<Rightarrow> world" where
  "append_bytes w p b = w\<lparr>files := fmupd p (content w p @ b) (files w)\<rparr>"

text \<open>
  A file object open for writing: its path and whether \<^verbatim>\<open>close()\<close> was called on it
  (closing twice is harmless in Python).  A file object open for reading also holds the
  bytes it has not returned yet.  These are the bytes the file had when it was opened: the
  model takes it that nobody writes to a file while it is being read, which is so whenever
  the input files, the chunk directory and the output directory are kept apart.
\<close>

datatype wfile = WFile (wf_path: path) (wf_closed: bool)

datatype rfile = RFile (rf_path: path) (rf_rest: "byte list") (rf_closed: bool)

definition wclose :: "world \<Rightarrow> wfile \<Rightarrow> wfile \<times> world" where
  "wclose w f =
     (if wf_closed f then (f, w) else (WFile (wf_path f) True, release w (wf_path f)))"

definition rclose :: "world \<Rightarrow> rfile \<Rightarrow> rfile \<times> world" where
  "rclose w f =
     (if rf_closed f then (f, w)
      else (RFile (rf_path f) (rf_rest f) True, release w (rf_path f)))"

text \<open>\<^verbatim>\<open>file.read(n)\<close>: at most \<open>n\<close> bytes, everything that is left when \<open>n\<close> is negative.\<close>

definition read_bytes :: "byte list \<Rightarrow> int \<Rightarrow> byte list" where
  "read_bytes rest n = (if n < 0 then rest else take (nat n) rest)"

definition unread :: "byte list \<Rightarrow> int \<Rightarrow> byte list" where
  "unread rest n = (if n < 0 then [] else drop (nat n) rest)"

section \<open>Decimal rendering of chunk indices\<close>

text \<open>\<^verbatim>\<open>f"chunk-{i}"\<close> renders the integer \<open>i\<close> in decimal, with a minus sign when negative.\<close>

definition digit_char :: "nat \<Rightarrow> char" where
  "digit_char d = char_of (48 + d)"

fun str_nat :: "nat \<Rightarrow> string" where
  "str_nat n =
     (if n < 10 then [digit_char n] else str_nat (n div 10) @ [digit_char (n mod 10)])"

declare str_nat.simps [simp del]

definition str_int :: "int \<Rightarrow> string" where
  "str_int i = (if i < 0 then CHR ''-'' # str_nat (nat (- i)) else str_nat (nat i))"

definition chunk_name :: "int \<Rightarrow> string" where
  "chunk_name i = ''chunk-'' @ str_int i"

section \<open>The encoder: class \<^verbatim>\<open>_Chunker\<close>\<close>

record chunker =
  bytes_per_chunk :: int
  outdir :: path
  chunk_index :: int
  byte_index :: int
  file_positions :: "(string \<times> int) list"
  can_write :: bool
  chunk :: "wfile option"
  this_chunk_bytes :: int

text \<open>
  Every method returns the exception it raised, if any, together with the object and the
  world as the method left them: the object outlives the exception, and
  \<^verbatim>\<open>encode\<close> goes on to call \<^verbatim>\<open>close()\<close> on it.
\<close>

type_synonym 'a outcome = "error option \<times> 'a \<times> world"

definition switch_to_next_chunk :: "chunker \<Rightarrow> world \<Rightarrow> chunker outcome" where
  "switch_to_next_chunk c w =
     (let (c1, w1) = (case chunk c of
                        None \<Rightarrow> (c, w)
                      | Some f \<Rightarrow> (let (f', w') = wclose w f in (c\<lparr>chunk := Some f'\<rparr>, w')));
          c2 = c1\<lparr>chunk_index := chunk_index c1 + 1\<rparr>;
          next_name = path_join (outdir c2) (chunk_name (chunk_index c2));
          c3 = c2\<lparr>this_chunk_bytes := 0\<rparr>
      in case open_wb w1 next_name of
           Inl e \<Rightarrow> (Some e, c3, w1)
         | Inr w2 \<Rightarrow> (None, c3\<lparr>chunk := Some (WFile next_name False)\<rparr>, w2))"

definition chunker_init :: "path \<Rightarrow> int \<Rightarrow> world \<Rightarrow> chunker outcome" where
  "chunker_init od mb_per_chunk w =
     switch_to_next_chunk
       \<lparr>bytes_per_chunk = mb_per_chunk * 1024 * 1024, outdir = od, chunk_index = - 1,
        byte_index = 0, file_positions = [], can_write = True, chunk = None,
        this_chunk_bytes = 0\<rparr> w"

text \<open>
  \<^verbatim>\<open>self.__chunk.write(b)\<close>: the chunk file grows by \<open>b\<close>.  Writing to a closed
  file object raises \<^verbatim>\<open>ValueError\<close>; that cannot happen inside the loop, where
  the chunk is open, but the model says so all the same.
\<close>

definition chunk_write :: "chunker \<Rightarrow> world \<Rightarrow> byte list \<Rightarrow> error + world" where
  "chunk_write c w b =
     (case chunk c of
        None \<Rightarrow> Inl AttributeError
      | Some f \<Rightarrow> if wf_closed f then Inl ValueError else Inr (append_bytes w (wf_path f) b))"

text \<open>The \<^verbatim>\<open>while (b:=file.read(n))\<close> loop of \<^verbatim>\<open>read_from_path\<close>; \<open>rest\<close> is what the source file still holds.\<close>

function read_loop :: "chunker \<Rightarrow> world \<Rightarrow> byte list \<Rightarrow> int \<Rightarrow> chunker outcome" where
  "read_loop c w rest n =
     (let b = read_bytes rest n in
      if b = [] then (None, c, w)
      else
        let c1 = c\<lparr>this_chunk_bytes := this_chunk_bytes c + int (length b)\<rparr>;
            c2 = c1\<lparr>byte_index := byte_index c1 + int (length b)\<rparr>
        in case chunk_write c2 w b of
             Inl e \<Rightarrow> (Some e, c2, w)
           | Inr w1 \<Rightarrow>
               let n1 = bytes_per_chunk c2 - this_chunk_bytes c2 in
               if n1 = 0
               then (case switch_to_next_chunk c2 w1 of
                       (Some e, c3, w2) \<Rightarrow> (Some e, c3, w2)
                     | (None, c3, w2) \<Rightarrow> read_loop c3 w2 (unread rest n) (bytes_per_chunk c3))
               else read_loop c2 w1 (unread rest n) n1)"
  by pat_completeness auto
termination
  by (relation "measure (\<lambda>(c, w, rest, n). length rest)")
     (auto simp: read_bytes_def unread_def split: if_splits)

definition read_from_path :: "chunker \<Rightarrow> world \<Rightarrow> path \<Rightarrow> string \<Rightarrow> chunker outcome" where
  "read_from_path c w p name =
     (if \<not> can_write c then (Some AlreadyClosed, c, w)
      else if name \<in> fst ` set (file_positions c) then (Some KeyError, c, w)
      else
        let c1 = c\<lparr>file_positions := file_positions c @ [(name, byte_index c)]\<rparr>;
            n = bytes_per_chunk c1 - this_chunk_bytes c1
        in case open_rb w p of
             Inl e \<Rightarrow> (Some e, c1, w)
           | Inr w1 \<Rightarrow>
               (let (e, c2, w2) = read_loop c1 w1 (content w1 p) n
                in (e, c2, release w2 p)))"

definition chunker_close :: "chunker \<Rightarrow> world \<Rightarrow> chunker outcome" where
  "chunker_close c w =
     (let c1 = c\<lparr>can_write := False\<rparr> in
      case chunk c1 of
        None \<Rightarrow> (Some AttributeError, c1, w)
      | Some f \<Rightarrow> (let (f', w') = wclose w f in (None, c1\<lparr>chunk := Some f'\<rparr>, w')))"

section \<open>The header file\<close>

text \<open>
  The header is written with \<^verbatim>\<open>json.dump\<close> and read with \<^verbatim>\<open>json.load\<close>.  The
  \<^verbatim>\<open>json\<close> module is not part of the repository: the serialiser and the parser
  are parameters of the model (\<open>dump\<close> and \<open>load\<close>, the latter returning \<open>None\<close>
  where \<^verbatim>\<open>json.load\<close> raises), and the values they exchange are the Python objects
  below.  An object is the list of its items in insertion order, as a Python
  \<^verbatim>\<open>dict\<close> keeps them.  Floating-point numbers are left out.
\<close>

datatype json =
    JNull
  | JBool bool
  | JInt int
  | JStr string
  | JArr "json list"
  | JObj "(string \<times> json) list"

text \<open>\<^verbatim>\<open>data[k]\<close> for a string key: only a \<^verbatim>\<open>dict\<close> holding the key answers.\<close>

fun json_get :: "json \<Rightarrow> string \<Rightarrow> json option" where
  "json_get (JObj kvs) k = map_of kvs k"
| "json_get _ k = None"

text \<open>The integer a JSON value stands for in arithmetic (\<^verbatim>\<open>bool\<close> is a subclass of \<^verbatim>\<open>int\<close>).\<close>

fun json_int :: "json \<Rightarrow> int option" where
  "json_int (JInt i) = Some i"
| "json_int (JBool b) = Some (if b then 1 else 0)"
| "json_int _ = None"

definition header_json :: "chunker \<Rightarrow> json" where
  "header_json c =
     JObj [(''bytes_per_chunk'', JInt (bytes_per_chunk c)),
           (''positions'', JObj (map (\<lambda>(name, off). (name, JInt off)) (file_positions c))),
           (''total_bytes'', JInt (byte_index c))]"

definition write_header_file :: "(json \<Rightarrow> byte list) \<Rightarrow> chunker \<Rightarrow> world \<Rightarrow> chunker outcome" where
  "write_header_file dump c w =
     (if can_write c then (Some NotClosed, c, w)
      else
        let header_path = path_join (outdir c) ''header'' in
        case open_wb w header_path of
          Inl e \<Rightarrow> (Some e, c, w)
        | Inr w1 \<Rightarrow>
            (None, c, release (append_bytes w1 header_path (dump (header_json c))) header_path))"

section \<open>\<^verbatim>\<open>collapse_tree\<close> and \<^verbatim>\<open>encode\<close>\<close>

text \<open>
  \<^verbatim>\<open>os.walk\<close> is the operating system's business: \<open>walk d\<close> stands for the list of
  \<^verbatim>\<open>os.path.join(root, file)\<close> over the regular files below \<open>d\<close>, in the order
  in which \<^verbatim>\<open>os.walk\<close> yields them.
\<close>

definition removeprefix :: "string \<Rightarrow> string \<Rightarrow> string" where
  "removeprefix s pre = (if take (length pre) s = pre then drop (length pre) s else s)"

definition collapse_tree :: "(path \<Rightarrow> path list) \<Rightarrow> world \<Rightarrow> path \<Rightarrow> error + (path \<times> string list)" where
  "collapse_tree walk w d =
     (if \<not> path_exists w d then Inl FileNotFoundError
      else if \<not> isdir w d then Inr (dirname d, [basename d])
      else Inr (d, map (\<lambda>full. removeprefix full (d @ ''/'')) (walk d)))"

text \<open>The \<^verbatim>\<open>for name in infiles\<close> loop inside \<^verbatim>\<open>try\<close>: the first exception ends it.\<close>

fun encode_loop :: "chunker \<Rightarrow> world \<Rightarrow> path \<Rightarrow> string list \<Rightarrow> chunker outcome" where
  "encode_loop c w base [] = (None, c, w)"
| "encode_loop c w base (name # names) =
     (case read_from_path c w (path_join base name) name of
        (Some e, c', w') \<Rightarrow> (Some e, c', w')
      | (None, c', w') \<Rightarrow> encode_loop c' w' base names)"

text \<open>
  The result of \<^verbatim>\<open>encode\<close> and \<^verbatim>\<open>decode\<close>: \<open>Inl e\<close> when the exception \<open>e\<close>
  leaves the function, \<open>Inr errored\<close> when it returns its flag; and the world afterwards.
  \<open>encode_files\<close> is \<^verbatim>\<open>encode\<close> from the creation of the chunker on: the
  \<^verbatim>\<open>try\<close> block, \<^verbatim>\<open>except Exception\<close> setting the flag, and the
  \<^verbatim>\<open>finally\<close> block, out of which an exception of \<^verbatim>\<open>close\<close> or
  \<^verbatim>\<open>write_header_file\<close> escapes before the \<^verbatim>\<open>return\<close> is reached.
\<close>

type_synonym result = "(error + bool) \<times> world"

definition encode_files :: "(json \<Rightarrow> byte list) \<Rightarrow> world \<Rightarrow> path \<Rightarrow> string list \<Rightarrow> path \<Rightarrow> int \<Rightarrow> result" where
  "encode_files dump w base infiles od mb_per_chunk =
     (case chunker_init od mb_per_chunk w of
        (Some e, c, w0) \<Rightarrow> (Inl e, w0)
      | (None, c, w0) \<Rightarrow>
          (let (e1, c1, w1) = encode_loop c w0 base infiles;
               errored = (e1 \<noteq> None);
               (e2, c2, w2) = chunker_close c1 w1
           in case e2 of
                Some x \<Rightarrow> (Inl x, w2)
              | None \<Rightarrow>
                  if \<not> errored
                  then (let (e3, c3, w3) = write_header_file dump c2 w2
                        in case e3 of Some x \<Rightarrow> (Inl x, w3) | None \<Rightarrow> (Inr errored, w3))
                  else (Inr errored, w2)))"

definition encode :: "(json \<Rightarrow> byte list) \<Rightarrow> (path \<Rightarrow> path list) \<Rightarrow> world \<Rightarrow> path \<Rightarrow> path \<Rightarrow> int \<Rightarrow> result" where
  "encode dump walk w infile od mb_per_chunk =
     (if \<not> path_exists w od then (Inl FileNotFoundError, w)
      else if \<not> isdir w od then (Inl NotADirectoryError, w)
      else if \<not> path_exists w infile then (Inl FileNotFoundError, w)
      else case collapse_tree walk w infile of
             Inl e \<Rightarrow> (Inl e, w)
           | Inr (base, infiles) \<Rightarrow> encode_files dump w base infiles od mb_per_chunk)"

section \<open>The decoder: class \<^verbatim>\<open>_Dechunker\<close>\<close>

record dechunker =
  d_bytes_per_chunk :: int
  indir :: path
  d_chunk_index :: int
  can_read :: bool
  d_chunk :: "rfile option"

definition d_switch_to_next_chunk :: "dechunker \<Rightarrow> world \<Rightarrow> dechunker outcome" where
  "d_switch_to_next_chunk d w =
     (let (d1, w1) = (case d_chunk d of
                        None \<Rightarrow> (d, w)
                      | Some f \<Rightarrow> (let (f', w') = rclose w f in (d\<lparr>d_chunk := Some f'\<rparr>, w')));
          d2 = d1\<lparr>d_chunk_index := d_chunk_index d1 + 1\<rparr>;
          next_name = path_join (indir d2) (chunk_name (d_chunk_index d2))
      in case open_rb w1 next_name of
           Inl e \<Rightarrow> (Some e, d2, w1)
         | Inr w2 \<Rightarrow> (None, d2\<lparr>d_chunk := Some (RFile next_name (content w2 next_name) False)\<rparr>, w2))"

definition dechunker_init :: "path \<Rightarrow> int \<Rightarrow> world \<Rightarrow> dechunker outcome" where
  "dechunker_init idir mb_per_chunk w =
     d_switch_to_next_chunk
       \<lparr>d_bytes_per_chunk = mb_per_chunk * 1024 * 1024, indir = idir, d_chunk_index = - 1,
        can_read = True, d_chunk = None\<rparr> w"

definition dechunker_close :: "dechunker \<Rightarrow> world \<Rightarrow> dechunker outcome" where
  "dechunker_close d w =
     (let d1 = d\<lparr>can_read := False\<rparr> in
      case d_chunk d1 of
        None \<Rightarrow> (Some AttributeError, d1, w)
      | Some f \<Rightarrow> (let (f', w') = rclose w f in (None, d1\<lparr>d_chunk := Some f'\<rparr>, w')))"

text \<open>
  The reader's loop ends because chunk files have distinct names and there are only finitely
  many files: \<^verbatim>\<open>f"chunk-{i}"\<close> is injective in \<open>i\<close>.
\<close>

lemma digit_char_inj: "a < 10 \<Longrightarrow> b < 10 \<Longrightarrow> digit_char a = digit_char b \<Longrightarrow> a = b"
  by (simp add: digit_char_def char_of_eq_iff take_bit_eq_mod)

lemma digit_char_not_minus: "d < 10 \<Longrightarrow> digit_char d \<noteq> CHR ''-''"
proof
  assume d: "d < 10" and "digit_char d = CHR ''-''"
  then have "of_char (digit_char d) = (of_char (CHR ''-'') :: nat)" by simp
  with d show False by (simp add: digit_char_def)
qed

lemma str_nat_nonempty: "str_nat n \<noteq> []"
  by (subst str_nat.simps) simp

lemma str_nat_inj: "str_nat n = str_nat m \<Longrightarrow> n = m"
proof (induction n arbitrary: m rule: str_nat.induct)
  case (1 n)
  show ?case
  proof (cases "n < 10")
    case n: True
    show ?thesis
    proof (cases "m < 10")
      case True
      with n "1.prems" show ?thesis
        by (subst (asm) str_nat.simps, subst (asm) (2) str_nat.simps) (simp add: digit_char_inj)
    next
      case False
      with n "1.prems" show ?thesis
        using str_nat_nonempty [of "m div 10"]
        by (subst (asm) str_nat.simps, subst (asm) (2) str_nat.simps) simp
    qed
  next
    case n: False
    show ?thesis
    proof (cases "m < 10")
      case True
      with n "1.prems" show ?thesis
        using str_nat_nonempty [of "n div 10"]
        by (subst (asm) str_nat.simps, subst (asm) (2) str_nat.simps) simp
    next
      case False
      from n False "1.prems"
      have "str_nat (n div 10) @ [digit_char (n mod 10)] = str_nat (m div 10) @ [digit_char (m mod 10)]"
        by (subst (asm) str_nat.simps, subst (asm) (2) str_nat.simps) simp
      then have a: "str_nat (n div 10) = str_nat (m div 10)"
        and b: "digit_char (n mod 10) = digit_char (m mod 10)" by simp_all
      from "1.IH" [OF n a] have "n div 10 = m div 10" .
      moreover from b have "n mod 10 = m mod 10" by (rule digit_char_inj [rotated 2]) simp_all
      ultimately show ?thesis by (metis div_mult_mod_eq)
    qed
  qed
qed

lemma str_nat_hd_not_minus: "hd (str_nat n) \<noteq> CHR ''-''"
proof (induction n rule: str_nat.induct)
  case (1 n)
  show ?case
  proof (cases "n < 10")
    case True
    then show ?thesis by (subst str_nat.simps) (simp add: digit_char_not_minus)
  next
    case False
    with 1 show ?thesis
      using str_nat_nonempty [of "n div 10"] by (subst str_nat.simps) simp
  qed
qed

lemma str_int_inj: "str_int i = str_int j \<Longrightarrow> i = j"
proof -
  assume eq: "str_int i = str_int j"
  have neg: "False" if "a < 0" "\<not> b < 0" "str_int a = str_int b" for a b
  proof -
    from that have "CHR ''-'' # str_nat (nat (- a)) = str_nat (nat b)" by (simp add: str_int_def)
    then have "hd (str_nat (nat b)) = CHR ''-''" by (metis list.sel(1))
    with str_nat_hd_not_minus show False by blast
  qed
  show ?thesis
  proof (cases "i < 0"; cases "j < 0")
    assume "i < 0" "j < 0"
    with eq have "nat (- i) = nat (- j)" by (simp add: str_int_def str_nat_inj)
    with \<open>i < 0\<close> \<open>j < 0\<close> show ?thesis by simp
  next
    assume "i < 0" "\<not> j < 0"
    with neg eq show ?thesis by blast
  next
    assume "\<not> i < 0" "j < 0"
    with neg [of j i] eq show ?thesis by simp
  next
    assume "\<not> i < 0" "\<not> j < 0"
    with eq have "nat i = nat j" by (simp add: str_int_def str_nat_inj)
    with \<open>\<not> i < 0\<close> \<open>\<not> j < 0\<close> show ?thesis by simp
  qed
qed

lemma chunk_name_inj: "chunk_name i = chunk_name j \<Longrightarrow> i = j"
  by (simp add: chunk_name_def str_int_inj)

lemma chunk_name_no_slash: "hd (chunk_name i) \<noteq> CHR ''/''" "chunk_name i \<noteq> []"
  by (simp_all add: chunk_name_def)

lemma path_join_chunk_inj:
  "path_join d (chunk_name i) = path_join d (chunk_name j) \<Longrightarrow> i = j"
  using chunk_name_no_slash by (auto simp: path_join_def dest: chunk_name_inj split: if_splits)

text \<open>The number of chunk files with an index beyond the current one.\<close>

definition chunks_ahead :: "dechunker \<Rightarrow> world \<Rightarrow> nat" where
  "chunks_ahead d w =
     card {p \<in> fmdom' (files w). \<exists>j > d_chunk_index d. p = path_join (indir d) (chunk_name j)}"

lemma d_switch_ok:
  assumes "d_switch_to_next_chunk d w = (None, d', w')"
  shows "files w' = files w" "indir d' = indir d" "d_chunk_index d' = d_chunk_index d + 1"
    "path_join (indir d) (chunk_name (d_chunk_index d + 1)) \<in> fmdom' (files w)"
  using assms
  by (auto simp: d_switch_to_next_chunk_def Let_def rclose_def release_def open_rb_def
      fmlookup_dom'_iff split: option.splits if_splits prod.splits sum.splits)

lemma chunks_ahead_switch:
  assumes "d_switch_to_next_chunk d w = (None, d', w')"
  shows "chunks_ahead d' w' < chunks_ahead d w"
proof -
  let ?P = "\<lambda>k p. \<exists>j > k. p = path_join (indir d) (chunk_name j)"
  let ?i = "d_chunk_index d"
  let ?p = "path_join (indir d) (chunk_name (?i + 1))"
  have sub: "{p \<in> fmdom' (files w). ?P (?i + 1) p} \<subseteq> {p \<in> fmdom' (files w). ?P ?i p}"
    by force
  have "?p \<in> {p \<in> fmdom' (files w). ?P ?i p}"
    using d_switch_ok(4) [OF assms] by force
  moreover have "?p \<notin> {p \<in> fmdom' (files w). ?P (?i + 1) p}"
    using path_join_chunk_inj by fastforce
  ultimately have "{p \<in> fmdom' (files w). ?P (?i + 1) p} \<subset> {p \<in> fmdom' (files w). ?P ?i p}"
    using sub by blast
  then have "card {p \<in> fmdom' (files w). ?P (?i + 1) p} < card {p \<in> fmdom' (files w). ?P ?i p}"
    by (intro psubset_card_mono) simp_all
  then show ?thesis
    by (simp add: chunks_ahead_def d_switch_ok [OF assms])
qed

text \<open>The \<^verbatim>\<open>while n > 0\<close> loop of \<^verbatim>\<open>write_n_bytes\<close>.\<close>

function write_loop :: "dechunker \<Rightarrow> world \<Rightarrow> path \<Rightarrow> int \<Rightarrow> dechunker outcome" where
  "write_loop d w outpath n =
     (if n > 0 then
        (case d_chunk d of
           None \<Rightarrow> (Some AttributeError, d, w)
         | Some f \<Rightarrow>
             if rf_closed f then (Some ValueError, d, w)
             else
               let b = read_bytes (rf_rest f) n;
                   d1 = d\<lparr>d_chunk := Some (RFile (rf_path f) (unread (rf_rest f) n) False)\<rparr>
               in if b = []
                  then (case d_switch_to_next_chunk d1 w of
                          (Some e, d2, w2) \<Rightarrow> (Some e, d2, w2)
                        | (None, d2, w2) \<Rightarrow> write_loop d2 w2 outpath n)
                  else write_loop d1 (append_bytes w outpath b) outpath (n - int (length b)))
      else (None, d, w))"
  by pat_completeness auto
termination
proof (relation "(\<lambda>(d, w, outpath, n). nat n) <*mlex*> measure (\<lambda>(d, w, outpath, n). chunks_ahead d w)",
    goal_cases)
  case 1
  show ?case by (simp add: wf_mlex)
next
  case (2 d w outpath n f b d1 r e d2 w2)
  from 2 have "d_switch_to_next_chunk d1 w = (None, d2, w2)" by simp
  from chunks_ahead_switch [OF this] have "chunks_ahead d2 w2 < chunks_ahead d1 w" .
  moreover have "chunks_ahead d1 w = chunks_ahead d w"
    using 2 by (simp add: chunks_ahead_def)
  ultimately show ?case by (simp add: mlex_iff)
next
  case (3 d w outpath n f b d1)
  then show ?case by (simp add: mlex_iff)
qed

definition write_n_bytes :: "dechunker \<Rightarrow> world \<Rightarrow> int \<Rightarrow> path \<Rightarrow> dechunker outcome" where
  "write_n_bytes d w n outpath =
     (if \<not> can_read d then (Some AlreadyClosed, d, w)
      else case open_wb w outpath of
             Inl e \<Rightarrow> (Some e, d, w)
           | Inr w1 \<Rightarrow>
               (let (e, d', w2) = write_loop d w1 outpath n
                in (e, d', release w2 outpath)))"

section \<open>\<^verbatim>\<open>decode\<close>\<close>

text \<open>
  The \<^verbatim>\<open>try\<close> block that reads the header: any exception inside it (no such
  file, unparsable text, a value that is not a \<^verbatim>\<open>dict\<close>, a missing key, a
  \<^verbatim>\<open>bytes_per_chunk\<close> that cannot be divided) becomes \<^verbatim>\<open>ValueError\<close>.  The
  \<^verbatim>\<open>with\<close> statement closes the header file on every path, so the world is as
  before.
\<close>

definition read_header :: "(byte list \<Rightarrow> json option) \<Rightarrow> world \<Rightarrow> path \<Rightarrow> error + (int \<times> json \<times> json)" where
  "read_header load w header_path =
     (case open_rb w header_path of
        Inl e \<Rightarrow> Inl ValueError
      | Inr w1 \<Rightarrow>
          (case load (content w1 header_path) of
             None \<Rightarrow> Inl ValueError
           | Some data \<Rightarrow>
               (case json_get data ''bytes_per_chunk'' of
                  None \<Rightarrow> Inl ValueError
                | Some bpc \<Rightarrow>
                    (case json_int bpc of
                       None \<Rightarrow> Inl ValueError
                     | Some b \<Rightarrow>
                         (case json_get data ''positions'' of
                            None \<Rightarrow> Inl ValueError
                          | Some positions \<Rightarrow>
                              (case json_get data ''total_bytes'' of
                                 None \<Rightarrow> Inl ValueError
                               | Some total_bytes \<Rightarrow>
                                   Inr (b div (1024 * 1024), positions, total_bytes)))))))"

text \<open>
  \<^verbatim>\<open>list(sorted(file_positions.items(), key=lambda i: i[1]))\<close>.  A value that is not a
  \<^verbatim>\<open>dict\<close> has no \<^verbatim>\<open>items\<close>.  Python's sort is stable, as \<open>sort_key\<close> is.
  Offsets that are not integers are outside the model: it raises \<^verbatim>\<open>TypeError\<close>
  here, where Python raises it at the first comparison of two such values or at the
  subtraction in the loop.
\<close>

fun int_items :: "(string \<times> json) list \<Rightarrow> (string \<times> int) list option" where
  "int_items [] = Some []"
| "int_items ((k, v) # kvs) =
     (case json_int v of
        None \<Rightarrow> None
      | Some i \<Rightarrow> (case int_items kvs of None \<Rightarrow> None | Some r \<Rightarrow> Some ((k, i) # r)))"

definition sorted_positions :: "json \<Rightarrow> error + (string \<times> int) list" where
  "sorted_positions positions =
     (case positions of
        JObj kvs \<Rightarrow>
          (case int_items kvs of None \<Rightarrow> Inl TypeError | Some items \<Rightarrow> Inr (sort_key snd items))
      | _ \<Rightarrow> Inl AttributeError)"

text \<open>
  The \<^verbatim>\<open>for i in range(len(file_positions))\<close> loop inside \<^verbatim>\<open>try\<close>: an entry
  ends where the next one starts, the last one at \<^verbatim>\<open>total_bytes\<close>.
\<close>

fun decode_loop :: "dechunker \<Rightarrow> world \<Rightarrow> path \<Rightarrow> json \<Rightarrow> (string \<times> int) list \<Rightarrow> dechunker outcome" where
  "decode_loop d w od total_bytes [] = (None, d, w)"
| "decode_loop d w od total_bytes (this # rest) =
     (case (case rest of [] \<Rightarrow> json_int total_bytes | nxt # _ \<Rightarrow> Some (snd nxt)) of
        None \<Rightarrow> (Some TypeError, d, w)
      | Some ends \<Rightarrow>
          (case write_n_bytes d w (ends - snd this) (path_join od (fst this)) of
             (Some e, d', w') \<Rightarrow> (Some e, d', w')
           | (None, d', w') \<Rightarrow> decode_loop d' w' od total_bytes rest))"

text \<open>
  \<open>decode_from\<close> is \<^verbatim>\<open>decode\<close> from the sorting of the positions on, given what the
  header held; \<open>decode\<close> is the whole function.  Nothing in \<^verbatim>\<open>decode\<close> calls
  \<^verbatim>\<open>dechunker.close()\<close>.
\<close>

definition decode_from :: "world \<Rightarrow> path \<Rightarrow> path \<Rightarrow> int \<Rightarrow> json \<Rightarrow> json \<Rightarrow> result" where
  "decode_from w idir od mb_per_chunk positions total_bytes =
     (case sorted_positions positions of
        Inl e \<Rightarrow> (Inl e, w)
      | Inr sorted_ps \<Rightarrow>
          (case dechunker_init idir mb_per_chunk w of
             (Some e, d, w0) \<Rightarrow> (Inl e, w0)
           | (None, d, w0) \<Rightarrow>
               (let (e1, d1, w1) = decode_loop d w0 od total_bytes sorted_ps
                in (Inr (e1 \<noteq> None), w1))))"

definition decode :: "(byte list \<Rightarrow> json option) \<Rightarrow> world \<Rightarrow> path \<Rightarrow> path \<Rightarrow> result" where
  "decode load w idir od =
     (if \<not> path_exists w od then (Inl FileNotFoundError, w)
      else if \<not> isdir w od then (Inl NotADirectoryError, w)
      else if \<not> path_exists w idir then (Inl FileNotFoundError, w)
      else if \<not> isdir w idir then (Inl NotADirectoryError, w)
      else
        let header_path = path_join idir ''header'' in
        if \<not> path_exists w header_path then (Inl FileNotFoundError, w)
        else case read_header load w header_path of
               Inl e \<Rightarrow> (Inl e, w)
             | Inr (mb_per_chunk, positions, total_bytes) \<Rightarrow>
                 decode_from w idir od mb_per_chunk positions total_bytes)"

section \<open>Vocabulary of the statements, and example inputs\<close>

text \<open>
  The predicates below describe the file system before and after a run; the worlds
  named \<open>ex_\<dots>\<close> are small inputs on which the model is run.
\<close>

text \<open>
  One chunk of three bytes holding the files \<^verbatim>\<open>a\<close> (two bytes) and \<^verbatim>\<open>b\<close> (one
  byte); the header's text is irrelevant since the parser is a parameter.
\<close>

definition ex_positions :: json where
  "ex_positions = JObj [(''a'', JInt 0), (''b'', JInt 2)]"

definition ex_header_of :: "int \<Rightarrow> (string \<times> json) list" where
  "ex_header_of bpc =
     [(''bytes_per_chunk'', JInt bpc), (''positions'', ex_positions), (''total_bytes'', JInt 3)]"

definition ex_world :: world where
  "ex_world =
     \<lparr>dirs = {''/in'', ''/out''},
      files = fmupd ''/in/header'' [] (fmupd ''/in/chunk-0'' [1, 2, 3] fmempty),
      handles = []\<rparr>"

text \<open>
  \<^verbatim>\<open>encode\<close> closes what it opens: the source files through \<^verbatim>\<open>with\<close>, the
  chunk files when the next one is opened and in \<^verbatim>\<open>chunker.close()\<close>, which the
  \<^verbatim>\<open>finally\<close> block calls on every path.  So the open handles after
  \<^verbatim>\<open>encode\<close> are those from before, whatever the outcome.
\<close>

definition holds_open :: "path list \<Rightarrow> chunker \<Rightarrow> world \<Rightarrow> bool" where
  "holds_open H c w \<longleftrightarrow>
     (\<exists>f. chunk c = Some f \<and>
        mset (handles w) = mset H + (if wf_closed f then {#} else {#wf_path f#}))"

text \<open>
  \<open>cpath d j\<close> is the path of chunk \<open>j\<close> in directory \<open>d\<close>.  A chunk directory is fit
  for writing when its path is normalised (as \<^verbatim>\<open>os.path.abspath\<close> returns it), it
  exists, and no chunk name is taken by a subdirectory.
\<close>

definition cpath :: "path \<Rightarrow> nat \<Rightarrow> path" where
  "cpath d j = path_join d (chunk_name (int j))"

definition normalised :: "path \<Rightarrow> bool" where
  "normalised d = (d \<noteq> [] \<and> (d = ''/'' \<or> last d \<noteq> CHR ''/''))"

definition chunk_dir_ok :: "world \<Rightarrow> path \<Rightarrow> bool" where
  "chunk_dir_ok w d = (normalised d \<and> d \<in> dirs w \<and> (\<forall>j. path_join d (chunk_name j) \<notin> dirs w))"

text \<open>
  With the capacity \<open>B\<close>, after the bytes \<open>S\<close> have been consumed the writer is on chunk
  \<open>I\<close> with \<open>T\<close> bytes in it, \<open>length S = I * B + T\<close> and \<open>T < B\<close>; chunk \<open>j \<le> I\<close>
  holds the \<open>j\<close>-th slice of \<open>S\<close>, and every other file is as it was in the world \<open>w0\<close>
  in which the session began.
\<close>

definition chunk_slice :: "nat \<Rightarrow> byte list \<Rightarrow> nat \<Rightarrow> byte list" where
  "chunk_slice B S j = take B (drop (j * B) S)"

definition chunker_inv :: "world \<Rightarrow> chunker \<Rightarrow> world \<Rightarrow> byte list \<Rightarrow> nat \<Rightarrow> nat \<Rightarrow> nat \<Rightarrow> bool" where
  "chunker_inv w0 c w S B I T \<longleftrightarrow>
     can_write c \<and> bytes_per_chunk c = int B \<and> chunk_index c = int I \<and>
     this_chunk_bytes c = int T \<and> byte_index c = int (length S) \<and>
     length S = I * B + T \<and> T < B \<and>
     chunk c = Some (WFile (cpath (outdir c) I) False) \<and>
     (\<forall>j \<le> I. fmlookup (files w) (cpath (outdir c) j) = Some (chunk_slice B S j)) \<and>
     (\<forall>p. (\<forall>j \<le> I. p \<noteq> cpath (outdir c) j) \<longrightarrow>
          fmlookup (files w) p = fmlookup (files w0) p) \<and>
     dirs w = dirs w0"

definition src_ok :: "world \<Rightarrow> path \<Rightarrow> path \<Rightarrow> bool" where
  "src_ok w od p \<longleftrightarrow>
     p \<notin> dirs w \<and> fmlookup (files w) p \<noteq> None \<and> (\<forall>j. p \<noteq> path_join od (chunk_name j))"

fun offsets :: "world \<Rightarrow> path \<Rightarrow> int \<Rightarrow> string list \<Rightarrow> (string \<times> int) list" where
  "offsets w base off [] = []"
| "offsets w base off (n # ns) =
     (n, off) # offsets w base (off + int (length (content w (path_join base n)))) ns"

definition stream :: "world \<Rightarrow> path \<Rightarrow> string list \<Rightarrow> byte list" where
  "stream w base names = concat (map (\<lambda>n. content w (path_join base n)) names)"

definition header_of :: "nat \<Rightarrow> (string \<times> int) list \<Rightarrow> nat \<Rightarrow> json" where
  "header_of B ps tb =
     JObj [(''bytes_per_chunk'', JInt (int B)),
           (''positions'', JObj (map (\<lambda>(name, off). (name, JInt off)) ps)),
           (''total_bytes'', JInt (int tb))]"

definition encoded :: "(json \<Rightarrow> byte list) \<Rightarrow> world \<Rightarrow> path \<Rightarrow> string list \<Rightarrow> path \<Rightarrow> nat \<Rightarrow> world \<Rightarrow> bool" where
  "encoded dump w base names od B w' \<longleftrightarrow>
     (let S = stream w base names; I = length S div B in
      dirs w' = dirs w \<and>
      (\<forall>j \<le> I. fmlookup (files w') (cpath od j) = Some (chunk_slice B S j)) \<and>
      fmlookup (files w') (path_join od ''header'') =
        Some (dump (header_of B (offsets w base 0 names) (length S))) \<and>
      (\<forall>p. (\<forall>j \<le> I. p \<noteq> cpath od j) \<longrightarrow> p \<noteq> path_join od ''header'' \<longrightarrow>
           fmlookup (files w') p = fmlookup (files w) p))"

text \<open>
  The input directory \<^verbatim>\<open>/src\<close> holds one file \<^verbatim>\<open>f\<close> of 1048576 bytes, which is
  the capacity for \<^verbatim>\<open>mb_per_chunk = 1\<close>; the chunks go to the empty directory
  \<^verbatim>\<open>/out\<close>.
\<close>

definition ex_src_world :: world where
  "ex_src_world =
     \<lparr>dirs = {''/src'', ''/out''},
      files = fmupd ''/src/f'' (replicate 1048576 0) fmempty,
      handles = []\<rparr>"

definition ex_started :: "chunker outcome" where
  "ex_started = chunker_init ''/out'' 1 ex_src_world"

definition ex_consumed :: "chunker outcome" where
  "ex_consumed = read_from_path (fst (snd ex_started)) (snd (snd ex_started)) ''/src/f'' ''f''"

definition ex_encoded :: result where
  "ex_encoded = encode_files (\<lambda>_. []) ex_src_world ''/src'' [''f''] ''/out'' 1"

text \<open>
  The chunk directory of the small example, with a header that names one file in a
  subdirectory, as \<^verbatim>\<open>collapse_tree\<close> produces for a directory tree.
\<close>

definition ex_tree_header :: "(string \<times> json) list" where
  "ex_tree_header =
     [(''bytes_per_chunk'', JInt 1048576), (''positions'', JObj [(''sub/a'', JInt 0)]),
      (''total_bytes'', JInt 3)]"

definition ex_tree_decoded :: result where
  "ex_tree_decoded = decode (\<lambda>_. Some (JObj ex_tree_header)) ex_world ''/in'' ''/out''"

text \<open>
  \<open>reads d w idir K R\<close>: the reader \<open>d\<close> is open on some chunk of directory \<open>idir\<close>,
  the bytes it has not returned yet followed by the chunk files after it, up to chunk
  \<open>K - 1\<close>, make up \<open>R\<close>.  The loop of \<^verbatim>\<open>write_n_bytes\<close> hands out the first \<open>n\<close>
  bytes of \<open>R\<close> whatever the sizes of the chunks are, and raises when \<open>R\<close> is too short
  and chunk \<open>K\<close> does not exist.
\<close>

definition reader_at :: "dechunker \<Rightarrow> nat \<Rightarrow> byte list \<Rightarrow> bool" where
  "reader_at d k rest \<longleftrightarrow>
     can_read d \<and> d_chunk_index d = int k \<and>
     d_chunk d = Some (RFile (cpath (indir d) k) rest False)"

definition chunks_from :: "world \<Rightarrow> path \<Rightarrow> nat \<Rightarrow> byte list list \<Rightarrow> bool" where
  "chunks_from w idir k cs \<longleftrightarrow>
     (\<forall>j < length cs. cpath idir (k + 1 + j) \<notin> dirs w \<and>
        fmlookup (files w) (cpath idir (k + 1 + j)) = Some (cs ! j))"

definition reads :: "dechunker \<Rightarrow> world \<Rightarrow> path \<Rightarrow> nat \<Rightarrow> byte list \<Rightarrow> bool" where
  "reads d w idir K R \<longleftrightarrow>
     (\<exists>k rest cs. indir d = idir \<and> reader_at d k rest \<and> chunks_from w idir k cs \<and>
        R = rest @ concat cs \<and> k + 1 + length cs = K)"

definition out_ok :: "world \<Rightarrow> path \<Rightarrow> path \<Rightarrow> bool" where
  "out_ok w idir p \<longleftrightarrow> p \<notin> dirs w \<and> dirname p \<in> dirs w \<and> (\<forall>j. p \<noteq> cpath idir j)"

fun offs :: "int \<Rightarrow> (string \<times> byte list) list \<Rightarrow> (string \<times> int) list" where
  "offs off [] = []"
| "offs off ((n, data) # r) = (n, off) # offs (off + int (length data)) r"

definition bytes_of :: "(string \<times> byte list) list \<Rightarrow> byte list" where
  "bytes_of fs = concat (map snd fs)"

definition chunk_files :: "world \<Rightarrow> path \<Rightarrow> byte list list \<Rightarrow> bool" where
  "chunk_files w idir cs \<longleftrightarrow>
     (\<forall>j < length cs. cpath idir j \<notin> dirs w \<and> fmlookup (files w) (cpath idir j) = Some (cs ! j))"

definition positions_json :: "(string \<times> int) list \<Rightarrow> json" where
  "positions_json ps = JObj (map (\<lambda>(name, off). (name, JInt off)) ps)"

definition out_paths :: "path \<Rightarrow> (string \<times> byte list) list \<Rightarrow> path list" where
  "out_paths od fs = map (\<lambda>x. path_join od (fst x)) fs"

definition header_holds :: "(byte list \<Rightarrow> json option) \<Rightarrow> world \<Rightarrow> path \<Rightarrow> json \<Rightarrow> bool" where
  "header_holds load w idir h \<longleftrightarrow>
     path_join idir ''header'' \<notin> dirs w \<and>
     (\<exists>bs. fmlookup (files w) (path_join idir ''header'') = Some bs \<and> load bs = Some h)"



definition ex_tree_world :: world where
  "ex_tree_world =
     \<lparr>dirs = {''/src'', ''/src/sub'', ''/cd'', ''/dst''},
      files = fmupd ''/src/sub/a'' [1, 2, 3] fmempty,
      handles = []\<rparr>"

definition ex_tree_encoded :: result where
  "ex_tree_encoded =
     encode (\<lambda>_. []) (\<lambda>_. [''/src/sub/a'']) ex_tree_world ''/src'' ''/cd'' 1"

definition ex_tree_roundtrip :: result where
  "ex_tree_roundtrip =
     decode (\<lambda>_. Some (header_of 1048576 [(''sub/a'', 0)] 3)) (snd ex_tree_encoded) ''/cd'' ''/dst''"

text \<open>
  Whatever happens, a chunker writes to chunk files only: every other file, the header
  among them, is as before.  And a loop over the names that ends without an exception has
  seen pairwise distinct names.
\<close>

definition writes_chunks :: "chunker \<Rightarrow> path \<Rightarrow> bool" where
  "writes_chunks c od \<longleftrightarrow>
     can_write c \<and> outdir c = od \<and>
     (\<exists>f. chunk c = Some f \<and> (\<exists>j. wf_path f = path_join od (chunk_name j)))"

definition same_elsewhere :: "path \<Rightarrow> world \<Rightarrow> world \<Rightarrow> bool" where
  "same_elsewhere od w w' \<longleftrightarrow>
     (\<forall>p. (\<forall>j. p \<noteq> path_join od (chunk_name j)) \<longrightarrow>
          fmlookup (files w') p = fmlookup (files w) p)"

section \<open>Evaluating the model\<close>

lemma digit_char_eval:
  "digit_char 0 = CHR ''0''" "digit_char 1 = CHR ''1''" "digit_char 2 = CHR ''2''"
  "digit_char 3 = CHR ''3''" "digit_char 4 = CHR ''4''" "digit_char 5 = CHR ''5''"
  "digit_char 6 = CHR ''6''" "digit_char 7 = CHR ''7''" "digit_char 8 = CHR ''8''"
  "digit_char 9 = CHR ''9''" "digit_char (Suc 0) = CHR ''1''"
  by code_simp+

lemma chunk_name_eval:
  "chunk_name 0 = ''chunk-0''" "chunk_name 1 = ''chunk-1''" "chunk_name 2 = ''chunk-2''"
  by (simp_all add: chunk_name_def str_int_def str_nat.simps digit_char_eval)

lemmas ex_eval = ex_world_def ex_header_of_def ex_positions_def
  decode_def decode_from_def path_exists_def isdir_def path_join_def
  read_header_def open_rb_def content_def sorted_positions_def dechunker_init_def d_switch_to_next_chunk_def
  chunk_name_eval write_n_bytes_def open_wb_def dirname_def read_bytes_def unread_def
  append_bytes_def release_def rclose_def Let_def write_loop.simps

section \<open>One step of the reader's loop\<close>

declare write_loop.simps [simp del]
declare read_loop.simps [simp del]

lemma write_loop_done: "n \<le> 0 \<Longrightarrow> write_loop d w p n = (None, d, w)"
  by (subst write_loop.simps) simp

lemma write_loop_read:
  assumes "0 < n" "d_chunk d = Some (RFile q rest False)" "rest \<noteq> []"
  shows "write_loop d w p n =
     write_loop (d\<lparr>d_chunk := Some (RFile q (unread rest n) False)\<rparr>)
       (append_bytes w p (read_bytes rest n)) p (n - int (length (read_bytes rest n)))"
  using assms by (subst write_loop.simps) (simp add: Let_def read_bytes_def)

lemma write_loop_switch:
  assumes "0 < n" "d_chunk d = Some (RFile q [] False)"
  shows "write_loop d w p n =
     (case d_switch_to_next_chunk d w of
        (Some e, d2, w2) \<Rightarrow> (Some e, d2, w2)
      | (None, d2, w2) \<Rightarrow> write_loop d2 w2 p n)"
proof -
  from assms(2) have eq: "d\<lparr>d_chunk := Some (RFile q [] False)\<rparr> = d" by simp
  from assms show ?thesis
    by (subst write_loop.simps) (simp add: Let_def read_bytes_def unread_def eq)
qed

lemma d_switch_bpc:
  "d_switch_to_next_chunk (d\<lparr>d_bytes_per_chunk := x\<rparr>) w =
     (case d_switch_to_next_chunk d w of (e, d', w') \<Rightarrow> (e, d'\<lparr>d_bytes_per_chunk := x\<rparr>, w'))"
  by (simp add: d_switch_to_next_chunk_def Let_def split: option.splits prod.splits sum.splits)

lemma write_loop_bpc:
  "write_loop (d\<lparr>d_bytes_per_chunk := x\<rparr>) w p n =
     (case write_loop d w p n of (e, d', w') \<Rightarrow> (e, d'\<lparr>d_bytes_per_chunk := x\<rparr>, w'))"
proof (induction d w p n rule: write_loop.induct)
  case (1 d w outpath n)
  show ?case
  proof (cases "n > 0")
    case False
    then show ?thesis by (simp add: write_loop_done)
  next
    case pos: True
    show ?thesis
    proof (cases "d_chunk d")
      case None
      with pos show ?thesis
        by (subst write_loop.simps, subst (2) write_loop.simps) simp
    next
      case (Some f)
      obtain q rest cl where f: "f = RFile q rest cl" by (cases f)
      show ?thesis
      proof (cases cl)
        case True
        with pos Some f show ?thesis
          by (subst write_loop.simps, subst (2) write_loop.simps) simp
      next
        case opn: False
        show ?thesis
        proof (cases "rest = []")
          case True
          note sw = write_loop_switch [OF pos, of _ q]
          obtain e d2 w2 where s: "d_switch_to_next_chunk d w = (e, d2, w2)"
            by (cases "d_switch_to_next_chunk d w") auto
          have d1: "d\<lparr>d_chunk := Some (RFile (rf_path f) (unread (rf_rest f) n) False)\<rparr> = d"
            using Some f opn True by (simp add: unread_def)
          show ?thesis
          proof (cases e)
            case None
            have "read_bytes (rf_rest f) n = []" using f True by (simp add: read_bytes_def)
            from "1.IH"(1) [OF pos Some _ refl refl this _ refl, of "(d2, w2)" d2 w2] s None f opn d1
            have "write_loop (d2\<lparr>d_bytes_per_chunk := x\<rparr>) w2 outpath n =
               (case write_loop d2 w2 outpath n of (e, d', w') \<Rightarrow> (e, d'\<lparr>d_bytes_per_chunk := x\<rparr>, w'))"
              by simp
            with Some f opn True s None show ?thesis
              by (simp add: sw d_switch_bpc)
          next
            case (Some err)
            with \<open>d_chunk d = Some f\<close> f opn True s show ?thesis
              by (simp add: sw d_switch_bpc)
          qed
        next
          case False
          note rd = write_loop_read [OF pos _ False, of _ q]
          have nb: "read_bytes (rf_rest f) n \<noteq> []"
            using f False pos by (simp add: read_bytes_def)
          let ?d1 = "d\<lparr>d_chunk := Some (RFile q (unread rest n) False)\<rparr>"
          let ?w1 = "append_bytes w outpath (read_bytes rest n)"
          let ?n1 = "n - int (length (read_bytes rest n))"
          from "1.IH"(2) [OF pos Some _ refl refl nb] f opn
          have ih: "write_loop (?d1\<lparr>d_bytes_per_chunk := x\<rparr>) ?w1 outpath ?n1 =
             (case write_loop ?d1 ?w1 outpath ?n1 of
               (e, d', w') \<Rightarrow> (e, d'\<lparr>d_bytes_per_chunk := x\<rparr>, w'))"
            by simp
          have "write_loop (d\<lparr>d_bytes_per_chunk := x\<rparr>) w outpath n =
              write_loop ((d\<lparr>d_bytes_per_chunk := x\<rparr>)\<lparr>d_chunk := Some (RFile q (unread rest n) False)\<rparr>) ?w1 outpath ?n1"
            by (rule write_loop_read [OF pos _ False]) (use Some f opn in simp)
          also have "(d\<lparr>d_bytes_per_chunk := x\<rparr>)\<lparr>d_chunk := Some (RFile q (unread rest n) False)\<rparr>
              = ?d1\<lparr>d_bytes_per_chunk := x\<rparr>" by simp
          also note ih
          also have "write_loop ?d1 ?w1 outpath ?n1 = write_loop d w outpath n"
            by (rule write_loop_read [OF pos _ False, symmetric]) (use Some f opn in simp)
          finally show ?thesis .
        qed
      qed
    qed
  qed
qed

section \<open>The reader never looks at \<^verbatim>\<open>bytes_per_chunk\<close>\<close>

lemma write_n_bytes_bpc:
  "write_n_bytes (d\<lparr>d_bytes_per_chunk := x\<rparr>) w n p =
     (case write_n_bytes d w n p of (e, d', w') \<Rightarrow> (e, d'\<lparr>d_bytes_per_chunk := x\<rparr>, w'))"
  by (simp add: write_n_bytes_def write_loop_bpc split: sum.splits prod.splits)

lemma decode_loop_bpc:
  "decode_loop (d\<lparr>d_bytes_per_chunk := x\<rparr>) w od tb ps =
     (case decode_loop d w od tb ps of (e, d', w') \<Rightarrow> (e, d'\<lparr>d_bytes_per_chunk := x\<rparr>, w'))"
proof (induction ps arbitrary: d w)
  case Nil
  show ?case by simp
next
  case (Cons this rest)
  show ?case
    by (simp add: write_n_bytes_bpc Cons.IH split: option.splits prod.splits list.splits)
qed

lemma dechunker_init_bpc:
  "dechunker_init idir mb2 w =
     (case dechunker_init idir mb1 w of
        (e, d, w') \<Rightarrow> (e, d\<lparr>d_bytes_per_chunk := mb2 * 1024 * 1024\<rparr>, w'))"
proof -
  let ?d = "\<lparr>d_bytes_per_chunk = mb1 * 1024 * 1024, indir = idir, d_chunk_index = - 1,
        can_read = True, d_chunk = None\<rparr>"
  have "dechunker_init idir mb2 w = d_switch_to_next_chunk (?d\<lparr>d_bytes_per_chunk := mb2 * 1024 * 1024\<rparr>) w"
    by (simp add: dechunker_init_def)
  also have "\<dots> = (case d_switch_to_next_chunk ?d w of
        (e, d, w') \<Rightarrow> (e, d\<lparr>d_bytes_per_chunk := mb2 * 1024 * 1024\<rparr>, w'))"
    by (rule d_switch_bpc)
  finally show ?thesis by (simp add: dechunker_init_def)
qed

lemma decode_from_bpc:
  "decode_from w idir od mb1 ps tb = decode_from w idir od mb2 ps tb"
proof (cases "sorted_positions ps")
  case (Inl e)
  then show ?thesis by (simp add: decode_from_def)
next
  case (Inr sps)
  obtain e d w0 where i1: "dechunker_init idir mb1 w = (e, d, w0)"
    by (cases "dechunker_init idir mb1 w") auto
  then have i2: "dechunker_init idir mb2 w = (e, d\<lparr>d_bytes_per_chunk := mb2 * 1024 * 1024\<rparr>, w0)"
    by (simp add: dechunker_init_bpc [of idir mb2 w mb1])
  show ?thesis
    by (cases e) (simp_all add: decode_from_def Inr i1 i2 decode_loop_bpc split: prod.splits)
qed

text \<open>
  Claim C10.  What \<^verbatim>\<open>decode\<close> does is independent of the \<^verbatim>\<open>bytes_per_chunk\<close>
  stored in the header: when two headers both parse to a record with an integer
  \<^verbatim>\<open>bytes_per_chunk\<close> and hold the same \<^verbatim>\<open>positions\<close> and
  \<^verbatim>\<open>total_bytes\<close>, decoding the same chunk directory with either gives the same
  outcome and the same files.  The reader goes to the next chunk when a read of the
  current one returns nothing, never by counting the capacity.
\<close>

theorem decode_ignores_bytes_per_chunk:
  assumes "load1 (content w (path_join idir ''header'')) = Some (JObj kvs1)"
    and "load2 (content w (path_join idir ''header'')) = Some (JObj kvs2)"
    and "map_of kvs1 ''bytes_per_chunk'' = Some (JInt a)"
    and "map_of kvs2 ''bytes_per_chunk'' = Some (JInt b)"
    and "map_of kvs1 ''positions'' = map_of kvs2 ''positions''"
    and "map_of kvs1 ''total_bytes'' = map_of kvs2 ''total_bytes''"
  shows "decode load1 w idir od = decode load2 w idir od"
proof -
  let ?hp = "path_join idir ''header''"
  have c: "content (w\<lparr>handles := ?hp # handles w\<rparr>) ?hp = content w ?hp"
    by (simp add: content_def)
  show ?thesis
  proof (cases "read_header load1 w ?hp")
    case (Inl e)
    with assms c have "read_header load2 w ?hp = Inl e"
      by (auto simp: read_header_def open_rb_def split: if_splits option.splits)
    with Inl show ?thesis by (simp add: decode_def Let_def)
  next
    case (Inr r)
    obtain m1 ps tb where r: "r = (m1, ps, tb)" by (cases r)
    with Inr assms c obtain m2 where "read_header load2 w ?hp = Inr (m2, ps, tb)"
      by (auto simp: read_header_def open_rb_def split: if_splits option.splits)
    with Inr r show ?thesis
      by (simp add: decode_def Let_def decode_from_bpc [of w idir od m1 ps tb m2])
  qed
qed

theorem decode_ignores_bytes_per_chunk_witness:
  "decode (\<lambda>_. Some (JObj (ex_header_of 1048576))) ex_world ''/in'' ''/out''
     = decode (\<lambda>_. Some (JObj (ex_header_of 2097152))) ex_world ''/in'' ''/out''"
  using decode_ignores_bytes_per_chunk [of "\<lambda>_. Some (JObj (ex_header_of 1048576))" ex_world "''/in''"
      "ex_header_of 1048576" "\<lambda>_. Some (JObj (ex_header_of 2097152))" "ex_header_of 2097152"
      1048576 2097152 "''/out''"]
  by (simp add: ex_header_of_def)

section \<open>A header without \<^verbatim>\<open>total_bytes\<close>\<close>

text \<open>
  Claim C7.  When the header file parses to a record that has no \<^verbatim>\<open>total_bytes\<close>
  field, \<^verbatim>\<open>decode\<close> raises \<^verbatim>\<open>ValueError\<close> ("Header file corrupted or
  invalid") and leaves the world as it found it: no chunk file has been opened, no handle
  is added and no file is written.
\<close>

theorem decode_header_without_total_bytes:
  assumes "isdir w od" "isdir w idir" "path_exists w (path_join idir ''header'')"
    and "load (content w (path_join idir ''header'')) = Some (JObj kvs)"
    and "map_of kvs ''total_bytes'' = None"
  shows "decode load w idir od = (Inl ValueError, w)"
proof -
  let ?hp = "path_join idir ''header''"
  have c: "content (w\<lparr>handles := ?hp # handles w\<rparr>) ?hp = content w ?hp"
    by (simp add: content_def)
  from assms c have "read_header load w ?hp = Inl ValueError"
    by (simp add: read_header_def open_rb_def split: option.splits)
  with assms show ?thesis
    by (simp add: decode_def Let_def path_exists_def isdir_def)
qed

theorem decode_header_without_total_bytes_witness:
  "isdir ex_world ''/out'' \<and> isdir ex_world ''/in'' \<and> path_exists ex_world (path_join ''/in'' ''header'')
   \<and> map_of [(''bytes_per_chunk'', JInt 1048576), (''positions'', ex_positions)] ''total_bytes'' = None
   \<and> decode (\<lambda>_. Some (JObj [(''bytes_per_chunk'', JInt 1048576), (''positions'', ex_positions)]))
        ex_world ''/in'' ''/out'' = (Inl ValueError, ex_world)"
  using decode_header_without_total_bytes [of ex_world "''/out''" "''/in''"
      "\<lambda>_. Some (JObj [(''bytes_per_chunk'', JInt 1048576), (''positions'', ex_positions)])"
      "[(''bytes_per_chunk'', JInt 1048576), (''positions'', ex_positions)]"]
  by (simp add: ex_world_def isdir_def path_exists_def path_join_def)

section \<open>File handles after \<^verbatim>\<open>encode\<close>\<close>

lemma switch_handles:
  assumes "holds_open H c w" "switch_to_next_chunk c w = (e, c', w')"
  shows "holds_open H c' w'"
proof -
  from assms(1) obtain f where f: "chunk c = Some f"
    and m: "mset (handles w) = mset H + (if wf_closed f then {#} else {#wf_path f#})"
    by (auto simp: holds_open_def)
  obtain f' w1 where cl: "wclose w f = (f', w1)" by (cases "wclose w f") auto
  then have f': "wf_closed f'" and m1: "mset (handles w1) = mset H"
    using m by (auto simp: wclose_def release_def split: if_splits)
  show ?thesis
  proof (cases "open_wb w1 (path_join (outdir c) (chunk_name (chunk_index c + 1)))")
    case (Inl err)
    with assms(2) f cl f' m1 show ?thesis
      by (auto simp: switch_to_next_chunk_def Let_def holds_open_def)
  next
    case (Inr w2)
    then have h2: "handles w2 = path_join (outdir c) (chunk_name (chunk_index c + 1)) # handles w1"
      by (auto simp: open_wb_def split: if_splits)
    from Inr assms(2) f cl
    have "chunk c' = Some (WFile (path_join (outdir c) (chunk_name (chunk_index c + 1))) False)"
      "w' = w2"
      by (auto simp: switch_to_next_chunk_def Let_def)
    with h2 m1 show ?thesis by (simp add: holds_open_def)
  qed
qed

lemma read_loop_handles:
  assumes "holds_open H c w" "read_loop c w data n = (e, c', w')"
  shows "holds_open H c' w'"
  using assms
proof (induction data arbitrary: c w n rule: length_induct)
  case (1 data)
  note ho = "1.prems"(1) and run = "1.prems"(2)
  let ?b = "read_bytes data n"
  show ?case
  proof (cases "?b = []")
    case True
    with run have "c' = c" "w' = w" by (subst (asm) read_loop.simps, simp)+
    with ho show ?thesis by simp
  next
    case False
    from ho obtain f where f: "chunk c = Some f" by (auto simp: holds_open_def)
    let ?c2 = "c\<lparr>this_chunk_bytes := this_chunk_bytes c + int (length ?b),
                   byte_index := byte_index c + int (length ?b)\<rparr>"
    have ho2: "holds_open H ?c2 w" using ho by (simp add: holds_open_def)
    have shorter: "length (unread data n) < length data"
    proof -
      from False have "data \<noteq> []" "n \<noteq> 0" by (auto simp: read_bytes_def split: if_splits)
      then have "0 < length data" by simp
      then show ?thesis using \<open>n \<noteq> 0\<close> by (simp add: unread_def)
    qed
    show ?thesis
    proof (cases "wf_closed f")
      case True
      with run False f have "c' = ?c2" "w' = w"
        by (subst (asm) read_loop.simps, simp add: Let_def chunk_write_def)+
      with ho2 show ?thesis by simp
    next
      case opn: False
      let ?w1 = "append_bytes w (wf_path f) ?b"
      have cw: "chunk_write ?c2 w ?b = Inr ?w1" using f opn by (simp add: chunk_write_def)
      have ho3: "holds_open H ?c2 ?w1" using ho2 by (simp add: holds_open_def append_bytes_def)
      show ?thesis
      proof (cases "bytes_per_chunk c - (this_chunk_bytes c + int (length ?b)) = 0")
        case full: True
        obtain e3 c3 w2 where sw: "switch_to_next_chunk ?c2 ?w1 = (e3, c3, w2)"
          by (cases "switch_to_next_chunk ?c2 ?w1") auto
        from switch_handles [OF ho3 sw] have ho4: "holds_open H c3 w2" .
        show ?thesis
        proof (cases e3)
          case None
          from run False cw full sw None
          have "read_loop c3 w2 (unread data n) (bytes_per_chunk c3) = (e, c', w')"
            by (subst (asm) read_loop.simps) (simp add: Let_def)
          from "1.IH" [rule_format, OF shorter ho4 this] show ?thesis .
        next
          case (Some err)
          from run False cw full sw Some have "c' = c3" "w' = w2"
            by (subst (asm) read_loop.simps, simp add: Let_def)+
          with ho4 show ?thesis by simp
        qed
      next
        case part: False
        from run False cw part
        have "read_loop ?c2 ?w1 (unread data n)
            (bytes_per_chunk c - (this_chunk_bytes c + int (length ?b))) = (e, c', w')"
          by (subst (asm) read_loop.simps) (simp add: Let_def)
        from "1.IH" [rule_format, OF shorter ho3 this] show ?thesis .
      qed
    qed
  qed
qed

lemma read_from_path_handles:
  assumes "holds_open H c w" "read_from_path c w p name = (e, c', w')"
  shows "holds_open H c' w'"
proof (cases "\<not> can_write c \<or> name \<in> fst ` set (file_positions c)")
  case True
  with assms(2) have "c' = c \<and> w' = w"
    by (cases "can_write c") (simp_all add: read_from_path_def)
  with assms(1) show ?thesis by simp
next
  case False
  let ?c1 = "c\<lparr>file_positions := file_positions c @ [(name, byte_index c)]\<rparr>"
  have ho1: "holds_open H ?c1 w" using assms(1) by (simp add: holds_open_def)
  show ?thesis
  proof (cases "open_rb w p")
    case (Inl err)
    with assms(2) False have "c' = ?c1" "w' = w" by (simp_all add: read_from_path_def Let_def)
    with ho1 show ?thesis by simp
  next
    case (Inr w1)
    then have h1: "handles w1 = p # handles w" by (auto simp: open_rb_def split: if_splits)
    have ho2: "holds_open (p # H) ?c1 w1" using ho1 h1 by (auto simp: holds_open_def)
    obtain e2 c2 w2 where rl: "read_loop ?c1 w1 (content w1 p)
        (bytes_per_chunk c - this_chunk_bytes c) = (e2, c2, w2)"
      by (cases "read_loop ?c1 w1 (content w1 p) (bytes_per_chunk c - this_chunk_bytes c)") auto
    from assms(2) False Inr rl have r: "c' = c2" "w' = release w2 p"
      by (simp_all add: read_from_path_def Let_def)
    from read_loop_handles [OF ho2 rl] obtain f where f: "chunk c2 = Some f"
      and m: "mset (handles w2) = mset (p # H) + (if wf_closed f then {#} else {#wf_path f#})"
      by (auto simp: holds_open_def)
    from m have "p \<in># mset (handles w2)" by simp
    then have "mset (remove1 p (handles w2)) = mset (handles w2) - {#p#}" by simp
    with m have "mset (handles (release w2 p)) = mset H + (if wf_closed f then {#} else {#wf_path f#})"
      by (simp add: release_def)
    with f r show ?thesis by (auto simp: holds_open_def)
  qed
qed

lemma encode_loop_handles:
  assumes "holds_open H c w" "encode_loop c w base names = (e, c', w')"
  shows "holds_open H c' w'"
  using assms
proof (induction names arbitrary: c w)
  case Nil
  then show ?case by simp
next
  case (Cons n ns)
  obtain e1 c1 w1 where r: "read_from_path c w (path_join base n) n = (e1, c1, w1)"
    by (cases "read_from_path c w (path_join base n) n") auto
  from read_from_path_handles [OF Cons.prems(1) r] have ho: "holds_open H c1 w1" .
  show ?case
  proof (cases e1)
    case None
    with Cons.prems(2) r have "encode_loop c1 w1 base ns = (e, c', w')" by simp
    from Cons.IH [OF ho this] show ?thesis .
  next
    case (Some err)
    with Cons.prems(2) r ho show ?thesis by simp
  qed
qed

lemma encode_files_closes_handles:
  "mset (handles (snd (encode_files dump w base names od mb))) = mset (handles w)"
proof -
  obtain e0 c0 w0 where init: "chunker_init od mb w = (e0, c0, w0)"
    by (cases "chunker_init od mb w") auto
  show ?thesis
  proof (cases e0)
    case (Some err)
    with init have "w0 = w"
      by (auto simp: chunker_init_def switch_to_next_chunk_def Let_def split: sum.splits)
    with init Some show ?thesis by (simp add: encode_files_def)
  next
    case None
    with init have ho0: "holds_open (handles w) c0 w0"
      by (auto simp: chunker_init_def switch_to_next_chunk_def Let_def open_wb_def holds_open_def
          split: sum.splits if_splits)
    obtain e1 c1 w1 where l: "encode_loop c0 w0 base names = (e1, c1, w1)"
      by (cases "encode_loop c0 w0 base names") auto
    from encode_loop_handles [OF ho0 l] obtain f where f: "chunk c1 = Some f"
      and m: "mset (handles w1) = mset (handles w) + (if wf_closed f then {#} else {#wf_path f#})"
      by (auto simp: holds_open_def)
    obtain f' w2 where cl: "wclose w1 f = (f', w2)" by (cases "wclose w1 f") auto
    then have m2: "mset (handles w2) = mset (handles w)"
      using m by (auto simp: wclose_def release_def split: if_splits)
    let ?c2 = "c1\<lparr>can_write := False, chunk := Some f'\<rparr>"
    have close: "chunker_close c1 w1 = (None, ?c2, w2)"
      by (simp add: chunker_close_def f cl Let_def)
    have wh: "mset (handles (snd (snd (write_header_file dump ?c2 w2)))) = mset (handles w2)"
      by (auto simp: write_header_file_def Let_def open_wb_def release_def append_bytes_def
          split: sum.splits if_splits)
    show ?thesis
    proof (cases e1)
      case (Some err)
      with init None l close m2 show ?thesis by (simp add: encode_files_def)
    next
      case n1: None
      obtain e3 c3 w3 where w: "write_header_file dump ?c2 w2 = (e3, c3, w3)"
        by (cases "write_header_file dump ?c2 w2") auto
      with wh m2 have "mset (handles w3) = mset (handles w)" by simp
      with init None l close n1 w show ?thesis
        by (cases e3) (simp_all add: encode_files_def)
    qed
  qed
qed

section \<open>File handles after \<^verbatim>\<open>decode\<close>\<close>

text \<open>
  Claim C8 asks that every file handle a session opened is closed when \<^verbatim>\<open>encode\<close>
  or \<^verbatim>\<open>decode\<close> returns.  \<^verbatim>\<open>decode\<close> never calls
  \<^verbatim>\<open>dechunker.close()\<close>: on the chunk directory above it starts with no handle
  open, returns \<^verbatim>\<open>False\<close> (no error), and the handle on \<^verbatim>\<open>chunk-0\<close> is
  still open.
\<close>

theorem decode_leaves_chunk_open:
  "handles ex_world = [] \<and>
   fst (decode (\<lambda>_. Some (JObj (ex_header_of 1048576))) ex_world ''/in'' ''/out'') = Inr False \<and>
   handles (snd (decode (\<lambda>_. Some (JObj (ex_header_of 1048576))) ex_world ''/in'' ''/out''))
     = [''/in/chunk-0'']"
  by (simp add: ex_eval)

lemma ex_decode_files:
  "files (snd (decode (\<lambda>_. Some (JObj (ex_header_of 1048576))) ex_world ''/in'' ''/out''))
     = fmupd ''/out/b'' [3] (fmupd ''/out/a'' [1, 2] (files ex_world))"
  by (simp add: ex_eval)

section \<open>Chunk file names\<close>

lemma digit_char_not_slash: "d < 10 \<Longrightarrow> digit_char d \<noteq> CHR ''/''"
proof
  assume d: "d < 10" and "digit_char d = CHR ''/''"
  then have "of_char (digit_char d) = (of_char (CHR ''/'') :: nat)" by simp
  with d show False by (simp add: digit_char_def)
qed

lemma str_nat_no_slash: "CHR ''/'' \<notin> set (str_nat n)"
proof (induction n rule: str_nat.induct)
  case (1 n)
  show ?case
  proof (cases "n < 10")
    case True
    then show ?thesis using digit_char_not_slash [of n] by (subst str_nat.simps) simp
  next
    case False
    with 1 show ?thesis
      using digit_char_not_slash [of "n mod 10"] by (subst str_nat.simps) simp
  qed
qed

lemma chunk_name_slash_free: "CHR ''/'' \<notin> set (chunk_name i)"
  by (simp add: chunk_name_def str_int_def str_nat_no_slash)

lemma dirname_path_join:
  assumes "normalised d" "CHR ''/'' \<notin> set b"
  shows "dirname (path_join d b) = d"
proof (cases "d = ''/''")
  case True
  have "dropWhile (\<lambda>c. c \<noteq> CHR ''/'') (rev b @ ''/'') = ''/''"
    using assms(2) by (simp add: dropWhile_append)
  with True assms(2) show ?thesis
    by (cases b) (auto simp: path_join_def dirname_def)
next
  case False
  with assms have d: "d \<noteq> []" "last d \<noteq> CHR ''/''" by (auto simp: normalised_def)
  have nb: "\<not> (b \<noteq> [] \<and> hd b = CHR ''/'')" using assms(2) by (cases b) auto
  have pj: "path_join d b = d @ ''/'' @ b" using d nb by (simp add: path_join_def)
  have dw: "dropWhile (\<lambda>c. c \<noteq> CHR ''/'') (rev (d @ ''/'' @ b)) = CHR ''/'' # rev d"
    using assms(2) by (simp add: dropWhile_append)
  have hd: "hd (rev d) \<noteq> CHR ''/''" using d by (simp add: hd_rev)
  then have dw2: "dropWhile (\<lambda>c. c = CHR ''/'') (rev d) = rev d"
    using d by (cases "rev d") auto
  have ex: "\<exists>c\<in>set d. c \<noteq> CHR ''/''" using d by (meson last_in_set)
  show ?thesis
    unfolding pj dirname_def dw using dw2 ex d by (simp add: Let_def)
qed

lemma dirname_cpath: "normalised d \<Longrightarrow> dirname (path_join d (chunk_name j)) = d"
  by (rule dirname_path_join) (simp_all add: chunk_name_slash_free)

lemma cpath_inj: "cpath d i = cpath d j \<Longrightarrow> i = j"
  unfolding cpath_def by (drule path_join_chunk_inj) simp

lemma path_join_rel_inj:
  assumes "path_join d a = path_join d b" "a = [] \<or> hd a \<noteq> CHR ''/''" "b = [] \<or> hd b \<noteq> CHR ''/''"
  shows "a = b"
  using assms by (auto simp: path_join_def split: if_splits)

lemma header_not_chunk: "path_join d ''header'' \<noteq> path_join d (chunk_name j)"
proof
  assume "path_join d ''header'' = path_join d (chunk_name j)"
  then have "''header'' = chunk_name j"
    by (rule path_join_rel_inj) (simp_all add: chunk_name_no_slash)
  then show False by (simp add: chunk_name_def)
qed

section \<open>The writer's invariant\<close>

lemma slice_append_full:
  assumes "(j + 1) * B \<le> length S"
  shows "chunk_slice B (S @ b) j = chunk_slice B S j"
proof -
  from assms have "j * B + B \<le> length S" by (simp add: algebra_simps)
  then show ?thesis by (simp add: chunk_slice_def)
qed

lemma slice_append_last:
  assumes "I * B \<le> length S" "length S + length b \<le> (I + 1) * B"
  shows "chunk_slice B (S @ b) I = chunk_slice B S I @ b"
proof -
  from assms have "length S - I * B + length b \<le> B" by (simp add: algebra_simps)
  with assms(1) show ?thesis by (simp add: chunk_slice_def)
qed

lemma slice_beyond: "length S \<le> j * B \<Longrightarrow> chunk_slice B S j = []"
  by (simp add: chunk_slice_def)

lemma slice_length_full: "(j + 1) * B \<le> length S \<Longrightarrow> length (chunk_slice B S j) = B"
proof -
  assume "(j + 1) * B \<le> length S"
  then have "j * B + B \<le> length S" by (simp add: algebra_simps)
  then show ?thesis by (simp add: chunk_slice_def)
qed

lemma slice_length_last: "length S = I * B + T \<Longrightarrow> T < B \<Longrightarrow> length (chunk_slice B S I) = T"
  by (simp add: chunk_slice_def)

lemma switch_open:
  assumes "chunk c = Some (WFile p False)" "chunk_dir_ok w (outdir c)"
  defines "nxt \<equiv> path_join (outdir c) (chunk_name (chunk_index c + 1))"
  shows "\<exists>c' w'. switch_to_next_chunk c w = (None, c', w') \<and>
     outdir c' = outdir c \<and> bytes_per_chunk c' = bytes_per_chunk c \<and>
     chunk_index c' = chunk_index c + 1 \<and> this_chunk_bytes c' = 0 \<and>
     byte_index c' = byte_index c \<and> file_positions c' = file_positions c \<and>
     can_write c' = can_write c \<and> chunk c' = Some (WFile nxt False) \<and>
     files w' = fmupd nxt [] (files w) \<and> dirs w' = dirs w \<and>
     handles w' = nxt # remove1 p (handles w)"
  using assms(1,2) unfolding nxt_def
  by (simp add: switch_to_next_chunk_def wclose_def release_def open_wb_def Let_def
      chunk_dir_ok_def dirname_cpath)

lemma chunker_init_inv:
  assumes "chunk_dir_ok w od" "0 < mb"
  shows "\<exists>c w'. chunker_init od mb w = (None, c, w') \<and>
     chunker_inv w c w' [] (nat (mb * 1024 * 1024)) 0 0 \<and> outdir c = od \<and>
     file_positions c = [] \<and> handles w' = cpath od 0 # handles w"
  using assms
  by (auto simp: chunker_init_def switch_to_next_chunk_def open_wb_def Let_def
      chunk_dir_ok_def dirname_cpath chunker_inv_def cpath_def chunk_slice_def)

lemma read_loop_empty: "read_loop c w [] n = (None, c, w)"
  by (subst read_loop.simps) (simp add: read_bytes_def)

lemma inv_write_partial:
  assumes inv: "chunker_inv w0 c w S B I T" and b: "T + length b < B"
  defines "c2 \<equiv> c\<lparr>this_chunk_bytes := this_chunk_bytes c + int (length b),
                    byte_index := byte_index c + int (length b)\<rparr>"
  shows "chunker_inv w0 c2 (append_bytes w (cpath (outdir c) I) b) (S @ b) B I (T + length b)"
proof -
  let ?p = "cpath (outdir c) I"
  from inv have len: "length S = I * B + T" and cur: "fmlookup (files w) ?p = Some (chunk_slice B S I)"
    by (simp_all add: chunker_inv_def)
  have slices: "fmlookup (files (append_bytes w ?p b)) (cpath (outdir c) j) = Some (chunk_slice B (S @ b) j)"
    if "j \<le> I" for j
  proof (cases "j = I")
    case True
    have "chunk_slice B (S @ b) I = chunk_slice B S I @ b"
      using len b by (intro slice_append_last) (simp_all add: algebra_simps)
    with True cur show ?thesis by (simp add: append_bytes_def content_def)
  next
    case False
    with that have "j + 1 \<le> I" by simp
    then have "(j + 1) * B \<le> I * B" by (rule mult_le_mono1)
    with len have "(j + 1) * B \<le> length S" by simp
    then have "chunk_slice B (S @ b) j = chunk_slice B S j" by (rule slice_append_full)
    moreover have "cpath (outdir c) j \<noteq> ?p" using False cpath_inj by blast
    moreover from inv that have "fmlookup (files w) (cpath (outdir c) j) = Some (chunk_slice B S j)"
      by (simp add: chunker_inv_def)
    ultimately show ?thesis by (simp add: append_bytes_def)
  qed
  have frame: "fmlookup (files (append_bytes w ?p b)) p = fmlookup (files w0) p"
    if "\<forall>j \<le> I. p \<noteq> cpath (outdir c) j" for p
  proof -
    from that have "p \<noteq> ?p" by simp
    with inv that show ?thesis by (auto simp: append_bytes_def chunker_inv_def)
  qed
  from inv b slices frame show ?thesis
    unfolding chunker_inv_def c2_def by (simp add: append_bytes_def)
qed

lemma inv_write_full:
  assumes inv: "chunker_inv w0 c w S B I T" and b: "T + length b = B"
    and sw: "outdir c' = outdir c" "bytes_per_chunk c' = bytes_per_chunk c"
      "chunk_index c' = chunk_index c + 1" "this_chunk_bytes c' = 0"
      "byte_index c' = byte_index c + int (length b)" "can_write c' = can_write c"
      "chunk c' = Some (WFile (cpath (outdir c) (I + 1)) False)"
      "files w' = fmupd (cpath (outdir c) (I + 1)) []
          (files (append_bytes w (cpath (outdir c) I) b))"
      "dirs w' = dirs w"
  shows "chunker_inv w0 c' w' (S @ b) B (I + 1) 0"
proof -
  let ?p = "cpath (outdir c) I"
  let ?q = "cpath (outdir c) (I + 1)"
  from inv have len: "length S = I * B + T" and cur: "fmlookup (files w) ?p = Some (chunk_slice B S I)"
    and idx: "chunk_index c = int I"
    by (simp_all add: chunker_inv_def)
  have len': "length (S @ b) = (I + 1) * B"
  proof -
    have "(I + 1) * B = I * B + B" by simp
    with len b show ?thesis by simp
  qed
  have slices: "fmlookup (files w') (cpath (outdir c) j) = Some (chunk_slice B (S @ b) j)"
    if "j \<le> I + 1" for j
  proof -
    from that consider "j = I + 1" | "j = I" | "j < I" by fastforce
    then show ?thesis
    proof cases
      case 1
      have "chunk_slice B (S @ b) (I + 1) = []" by (rule slice_beyond) (use len' in simp)
      with 1 show ?thesis by (simp add: sw)
    next
      case 2
      have e: "(I + 1) * B = I * B + B" by simp
      have "chunk_slice B (S @ b) I = chunk_slice B S I @ b"
      proof (rule slice_append_last)
        show "I * B \<le> length S" using len by simp
        show "length S + length b \<le> (I + 1) * B" unfolding e using len b by linarith
      qed
      moreover have "?p \<noteq> ?q" using cpath_inj [of "outdir c" I "I + 1"] by auto
      ultimately show ?thesis using 2 cur
        by (simp add: sw append_bytes_def content_def)
    next
      case 3
      then have "j + 1 \<le> I" by simp
      then have "(j + 1) * B \<le> I * B" by (rule mult_le_mono1)
      with len have "(j + 1) * B \<le> length S" by simp
      then have "chunk_slice B (S @ b) j = chunk_slice B S j" by (rule slice_append_full)
      moreover have "cpath (outdir c) j \<noteq> ?p" "cpath (outdir c) j \<noteq> ?q"
        using 3 cpath_inj [of "outdir c" j I] cpath_inj [of "outdir c" j "I + 1"] by auto
      moreover from inv 3 have "fmlookup (files w) (cpath (outdir c) j) = Some (chunk_slice B S j)"
        by (simp add: chunker_inv_def)
      ultimately show ?thesis by (simp add: sw append_bytes_def)
    qed
  qed
  have frame: "fmlookup (files w') p = fmlookup (files w0) p"
    if "\<forall>j \<le> I + 1. p \<noteq> cpath (outdir c) j" for p
  proof -
    from that have "p \<noteq> ?p" "p \<noteq> ?q" "\<forall>j \<le> I. p \<noteq> cpath (outdir c) j" by simp_all
    with inv show ?thesis by (auto simp: sw append_bytes_def chunker_inv_def)
  qed
  from inv b have B: "0 < B" by (simp add: chunker_inv_def)
  from inv slices frame len' B show ?thesis
    unfolding chunker_inv_def by (simp add: sw append_bytes_def)
qed

lemma read_loop_inv:
  assumes "chunker_inv w0 c w S B I T" "chunk_dir_ok w0 (outdir c)"
  shows "\<exists>c' w' I' T'. read_loop c w data (int B - int T) = (None, c', w') \<and>
           chunker_inv w0 c' w' (S @ data) B I' T' \<and> outdir c' = outdir c \<and>
           file_positions c' = file_positions c"
  using assms
proof (induction data arbitrary: c w S I T rule: length_induct)
  case (1 data)
  note inv = "1.prems"(1) and ok = "1.prems"(2)
  from inv have TB: "T < B" and bpc: "bytes_per_chunk c = int B" and tcb: "this_chunk_bytes c = int T"
    and ch: "chunk c = Some (WFile (cpath (outdir c) I) False)" and idx: "chunk_index c = int I"
    and dirs: "dirs w = dirs w0"
    by (simp_all add: chunker_inv_def)
  show ?case
  proof (cases "data = []")
    case True
    with inv show ?thesis by (auto simp: read_loop_empty)
  next
    case False
    let ?n = "int B - int T"
    let ?b = "take (B - T) data"
    let ?rest = "drop (B - T) data"
    let ?c2 = "c\<lparr>this_chunk_bytes := this_chunk_bytes c + int (length ?b),
                    byte_index := byte_index c + int (length ?b)\<rparr>"
    let ?w1 = "append_bytes w (cpath (outdir c) I) ?b"
    have n: "nat ?n = B - T" "\<not> ?n < 0" using TB by simp_all
    have rb: "read_bytes data ?n = ?b" "unread data ?n = ?rest"
      using n by (simp_all add: read_bytes_def unread_def)
    have bne: "?b \<noteq> []" using False TB by simp
    have lb: "length ?b = min (length data) (B - T)" by simp
    have shorter: "length ?rest < length data"
    proof -
      have "0 < length data" using False by simp
      moreover have "length ?rest = length data - (B - T)" by simp
      ultimately show ?thesis using TB by linarith
    qed
    have split: "?b @ ?rest = data" by simp
    show ?thesis
    proof (cases "T + length ?b = B")
      case full: True
      have ok2: "chunk_dir_ok w (outdir c)" using ok dirs by (simp add: chunk_dir_ok_def)
      have "chunk ?c2 = Some (WFile (cpath (outdir c) I) False)" using ch by simp
      moreover have "chunk_dir_ok ?w1 (outdir ?c2)"
        using ok2 by (simp add: chunk_dir_ok_def append_bytes_def)
      ultimately obtain c3 w2 where sw: "switch_to_next_chunk ?c2 ?w1 = (None, c3, w2)"
        and c3: "outdir c3 = outdir ?c2" "bytes_per_chunk c3 = bytes_per_chunk ?c2"
          "chunk_index c3 = chunk_index ?c2 + 1" "this_chunk_bytes c3 = 0"
          "byte_index c3 = byte_index ?c2" "file_positions c3 = file_positions ?c2"
          "can_write c3 = can_write ?c2"
          "chunk c3 = Some (WFile (path_join (outdir ?c2) (chunk_name (chunk_index ?c2 + 1))) False)"
          "files w2 = fmupd (path_join (outdir ?c2) (chunk_name (chunk_index ?c2 + 1))) [] (files ?w1)"
          "dirs w2 = dirs ?w1"
        using switch_open [of ?c2 "cpath (outdir c) I" ?w1] by blast
      have nx: "path_join (outdir c) (chunk_name (int I + 1)) = cpath (outdir c) (I + 1)"
        by (simp add: cpath_def add.commute)
      have inv3: "chunker_inv w0 c3 w2 (S @ ?b) B (I + 1) 0"
        by (rule inv_write_full [OF inv full])
           (use c3 idx nx dirs in \<open>simp_all add: append_bytes_def\<close>)
      have ok3: "chunk_dir_ok w0 (outdir c3)" using ok c3 by simp
      from "1.IH" shorter inv3 ok3
      obtain c' w' I' T' where r: "read_loop c3 w2 ?rest (int B - int 0) = (None, c', w')"
        and inv': "chunker_inv w0 c' w' ((S @ ?b) @ ?rest) B I' T'"
        and same: "outdir c' = outdir c3" "file_positions c' = file_positions c3"
        by blast
      have "read_loop c w data ?n = read_loop c3 w2 ?rest (int B)"
        using bne full ch bpc tcb sw c3
        by (subst read_loop.simps) (simp add: rb Let_def chunk_write_def)
      with r inv' same c3 split show ?thesis
        by (auto simp: append.assoc)
    next
      case part: False
      with lb TB have all: "?b = data" "?rest = []" "T + length data < B" by auto
      have inv2: "chunker_inv w0 ?c2 ?w1 (S @ ?b) B I (T + length ?b)"
        by (rule inv_write_partial [OF inv]) (use all in simp)
      have "read_loop c w data ?n = read_loop ?c2 ?w1 ?rest (int B - int (T + length ?b))"
        using bne part ch bpc tcb all(3)
        by (subst read_loop.simps) (simp add: rb Let_def chunk_write_def)
      also have "\<dots> = (None, ?c2, ?w1)" by (simp only: all(2) read_loop_empty)
      finally show ?thesis using inv2 all by auto
    qed
  qed
qed

lemma inv_same_files:
  "chunker_inv w0 c w S B I T \<Longrightarrow> files w' = files w \<Longrightarrow> dirs w' = dirs w \<Longrightarrow>
   chunker_inv w0 c w' S B I T"
  by (simp add: chunker_inv_def)

lemma inv_positions:
  "chunker_inv w0 (c\<lparr>file_positions := x\<rparr>) w S B I T = chunker_inv w0 c w S B I T"
  by (simp add: chunker_inv_def)

lemma inv_unchanged:
  assumes "chunker_inv w0 c w S B I T" "\<forall>j. p \<noteq> path_join (outdir c) (chunk_name j)"
  shows "fmlookup (files w) p = fmlookup (files w0) p"
  using assms by (simp add: chunker_inv_def cpath_def)

lemma read_from_path_inv:
  assumes inv: "chunker_inv w0 c w S B I T" and ok: "chunk_dir_ok w0 (outdir c)"
    and fresh: "name \<notin> fst ` set (file_positions c)" and src: "src_ok w0 (outdir c) p"
  shows "\<exists>c' w' I' T'. read_from_path c w p name = (None, c', w') \<and>
           chunker_inv w0 c' w' (S @ content w0 p) B I' T' \<and> outdir c' = outdir c \<and>
           file_positions c' = file_positions c @ [(name, int (length S))]"
proof -
  let ?c1 = "c\<lparr>file_positions := file_positions c @ [(name, byte_index c)]\<rparr>"
  let ?w1 = "w\<lparr>handles := p # handles w\<rparr>"
  from inv have cw: "can_write c" and bi: "byte_index c = int (length S)"
    and bpc: "bytes_per_chunk c = int B" and tcb: "this_chunk_bytes c = int T"
    and dirs: "dirs w = dirs w0"
    by (simp_all add: chunker_inv_def)
  from src have same: "fmlookup (files w) p = fmlookup (files w0) p"
    using inv_unchanged [OF inv] by (simp add: src_ok_def)
  with src dirs have op: "open_rb w p = Inr ?w1" by (simp add: open_rb_def src_ok_def)
  have cont: "content ?w1 p = content w0 p" using same by (simp add: content_def)
  have inv1: "chunker_inv w0 ?c1 ?w1 S B I T"
    using inv by (simp add: inv_positions inv_same_files)
  have ok1: "chunk_dir_ok w0 (outdir ?c1)" using ok by simp
  from read_loop_inv [OF inv1 ok1, of "content w0 p"]
  obtain c' w' I' T' where r: "read_loop ?c1 ?w1 (content w0 p) (int B - int T) = (None, c', w')"
    and inv': "chunker_inv w0 c' w' (S @ content w0 p) B I' T'"
    and o: "outdir c' = outdir ?c1" and fp: "file_positions c' = file_positions ?c1"
    by blast
  have "read_from_path c w p name = (None, c', release w' p)"
    using cw fresh op r by (simp add: read_from_path_def Let_def cont bpc tcb)
  moreover have "chunker_inv w0 c' (release w' p) (S @ content w0 p) B I' T'"
    using inv' by (rule inv_same_files) (simp_all add: release_def)
  ultimately show ?thesis using o fp bi by auto
qed

lemma offsets_names: "map fst (offsets w base off names) = names"
  by (induction names arbitrary: off) simp_all

lemma encode_loop_inv:
  assumes "chunker_inv w0 c w S B I T" "chunk_dir_ok w0 (outdir c)"
    and "distinct names" "set names \<inter> fst ` set (file_positions c) = {}"
    and "\<forall>n \<in> set names. src_ok w0 (outdir c) (path_join base n)"
  shows "\<exists>c' w' I' T'. encode_loop c w base names = (None, c', w') \<and>
           chunker_inv w0 c' w' (S @ stream w0 base names) B I' T' \<and> outdir c' = outdir c \<and>
           file_positions c' = file_positions c @ offsets w0 base (int (length S)) names"
  using assms
proof (induction names arbitrary: c w S I T)
  case Nil
  then show ?case by (auto simp: stream_def)
next
  case (Cons n ns)
  from Cons.prems have fresh: "n \<notin> fst ` set (file_positions c)"
    and src: "src_ok w0 (outdir c) (path_join base n)" by auto
  from read_from_path_inv [OF Cons.prems(1,2) fresh src]
  obtain c1 w1 I1 T1 where r: "read_from_path c w (path_join base n) n = (None, c1, w1)"
    and inv1: "chunker_inv w0 c1 w1 (S @ content w0 (path_join base n)) B I1 T1"
    and o1: "outdir c1 = outdir c"
    and fp1: "file_positions c1 = file_positions c @ [(n, int (length S))]"
    by blast
  have "\<exists>c' w' I' T'. encode_loop c1 w1 base ns = (None, c', w') \<and>
           chunker_inv w0 c' w' ((S @ content w0 (path_join base n)) @ stream w0 base ns) B I' T' \<and>
           outdir c' = outdir c1 \<and>
           file_positions c' = file_positions c1 @
             offsets w0 base (int (length (S @ content w0 (path_join base n)))) ns"
  proof (rule Cons.IH [OF inv1])
    show "chunk_dir_ok w0 (outdir c1)" using Cons.prems(2) o1 by simp
    show "distinct ns" using Cons.prems(3) by simp
    show "set ns \<inter> fst ` set (file_positions c1) = {}"
      using Cons.prems(3,4) fp1 by auto
    show "\<forall>n\<in>set ns. src_ok w0 (outdir c1) (path_join base n)"
      using Cons.prems(5) o1 by simp
  qed
  then obtain c' w' I' T' where "encode_loop c1 w1 base ns = (None, c', w')"
    "chunker_inv w0 c' w' ((S @ content w0 (path_join base n)) @ stream w0 base ns) B I' T'"
    "outdir c' = outdir c1"
    "file_positions c' = file_positions c1 @
             offsets w0 base (int (length (S @ content w0 (path_join base n)))) ns"
    by blast
  with r o1 fp1 show ?case
    by (auto simp: stream_def)
qed

section \<open>What a successful \<^verbatim>\<open>encode\<close> leaves behind\<close>

lemma inv_div_mod:
  assumes "chunker_inv w0 c w S B I T"
  shows "I = length S div B" "T = length S mod B"
proof -
  from assms have "length S = I * B + T" "T < B" by (simp_all add: chunker_inv_def)
  then show "I = length S div B" "T = length S mod B" by simp_all
qed

lemma encode_files_ok:
  assumes ok: "chunk_dir_ok w od" and mb: "0 < mb"
    and names: "distinct names" "\<forall>n \<in> set names. src_ok w od (path_join base n)"
    and hdr: "path_join od ''header'' \<notin> dirs w"
  shows "\<exists>w'. encode_files dump w base names od mb = (Inr False, w') \<and>
           encoded dump w base names od (nat (mb * 1024 * 1024)) w'"
proof -
  let ?B = "nat (mb * 1024 * 1024)"
  let ?hp = "path_join od ''header''"
  from chunker_init_inv [OF ok mb]
  obtain c0 w0 where init: "chunker_init od mb w = (None, c0, w0)"
    and inv0: "chunker_inv w c0 w0 [] ?B 0 0" and od0: "outdir c0 = od"
    and fp0: "file_positions c0 = []"
    by blast
  have "\<exists>c' w' I' T'. encode_loop c0 w0 base names = (None, c', w') \<and>
           chunker_inv w c' w' ([] @ stream w base names) ?B I' T' \<and> outdir c' = outdir c0 \<and>
           file_positions c' = file_positions c0 @ offsets w base (int (length ([]::byte list))) names"
    by (rule encode_loop_inv [OF inv0]) (use ok names od0 fp0 in simp_all)
  then obtain c1 w1 I T where loop: "encode_loop c0 w0 base names = (None, c1, w1)"
    and inv1: "chunker_inv w c1 w1 (stream w base names) ?B I T" and od1: "outdir c1 = od"
    and fp1: "file_positions c1 = offsets w base 0 names"
    using od0 fp0 by auto
  let ?S = "stream w base names"
  let ?c2 = "c1\<lparr>can_write := False, chunk := Some (WFile (cpath od I) True)\<rparr>"
  let ?w2 = "release w1 (cpath od I)"
  from inv1 od1 have ch: "chunk c1 = Some (WFile (cpath od I) False)"
    and dirs1: "dirs w1 = dirs w" and bi: "byte_index c1 = int (length ?S)"
    and bpc: "bytes_per_chunk c1 = int ?B"
    by (simp_all add: chunker_inv_def)
  have close: "chunker_close c1 w1 = (None, ?c2, ?w2)"
    using ch by (simp add: chunker_close_def wclose_def Let_def)
  have hj: "header_json ?c2 = header_of ?B (offsets w base 0 names) (length ?S)"
    by (simp add: header_json_def header_of_def fp1 bi bpc)
  have dn: "dirname ?hp = od"
    using ok by (intro dirname_path_join) (simp_all add: chunk_dir_ok_def)
  let ?w3 = "release (append_bytes (?w2\<lparr>files := fmupd ?hp [] (files ?w2), handles := ?hp # handles ?w2\<rparr>)
       ?hp (dump (header_json ?c2))) ?hp"
  have op: "open_wb ?w2 ?hp = Inr (?w2\<lparr>files := fmupd ?hp [] (files ?w2), handles := ?hp # handles ?w2\<rparr>)"
    using hdr dirs1 ok dn by (simp add: open_wb_def release_def chunk_dir_ok_def)
  have wh: "write_header_file dump ?c2 ?w2 = (None, ?c2, ?w3)"
    using op by (simp add: write_header_file_def Let_def od1)
  have res: "encode_files dump w base names od mb = (Inr False, ?w3)"
    by (simp add: encode_files_def init loop close wh)
  have I: "I = length ?S div ?B" using inv_div_mod(1) [OF inv1] .
  have f3: "files ?w3 = fmupd ?hp (dump (header_json ?c2)) (files w1)"
    by (simp add: release_def append_bytes_def content_def)
  have hc: "?hp \<noteq> cpath od j" for j by (simp add: cpath_def header_not_chunk)
  have "encoded dump w base names od ?B ?w3"
    unfolding encoded_def Let_def I [symmetric] f3 hj
    using inv1 od1 hc by (auto simp: chunker_inv_def release_def append_bytes_def content_def)
  with res show ?thesis by blast
qed

section \<open>A file of exactly one chunk\<close>

lemma ex_src_ok:
  "chunk_dir_ok ex_src_world ''/out''" "src_ok ex_src_world ''/out'' (path_join ''/src'' ''f'')"
  "path_join ''/out'' ''header'' \<notin> dirs ex_src_world"
  by (simp_all add: chunk_dir_ok_def src_ok_def ex_src_world_def normalised_def path_join_def
      chunk_name_def)

lemma ex_started_eval:
  "ex_started = (None,
     \<lparr>bytes_per_chunk = 1048576, outdir = ''/out'', chunk_index = 0, byte_index = 0,
      file_positions = [], can_write = True, chunk = Some (WFile ''/out/chunk-0'' False),
      this_chunk_bytes = 0\<rparr>,
     \<lparr>dirs = {''/src'', ''/out''},
      files = fmupd ''/out/chunk-0'' [] (fmupd ''/src/f'' (replicate 1048576 0) fmempty),
      handles = [''/out/chunk-0'']\<rparr>)"
  by (simp add: ex_started_def chunker_init_def switch_to_next_chunk_def ex_src_world_def
      path_join_def chunk_name_eval open_wb_def dirname_def Let_def)

lemma ex_consumed_eval:
  "ex_consumed = (None,
     \<lparr>bytes_per_chunk = 1048576, outdir = ''/out'', chunk_index = 1, byte_index = 1048576,
      file_positions = [(''f'', 0)], can_write = True, chunk = Some (WFile ''/out/chunk-1'' False),
      this_chunk_bytes = 0\<rparr>,
     \<lparr>dirs = {''/src'', ''/out''},
      files = fmupd ''/out/chunk-1'' [] (fmupd ''/out/chunk-0'' (replicate 1048576 0)
                (fmupd ''/out/chunk-0'' [] (fmupd ''/src/f'' (replicate 1048576 0) fmempty))),
      handles = [''/out/chunk-1'']\<rparr>)"
  by (simp add: ex_consumed_def ex_started_eval read_from_path_def open_rb_def content_def
      read_loop.simps read_bytes_def unread_def chunk_write_def append_bytes_def
      switch_to_next_chunk_def wclose_def release_def
      path_join_def chunk_name_eval open_wb_def dirname_def Let_def)

lemma ex_encoded_eval:
  "ex_encoded = (Inr False,
     \<lparr>dirs = {''/src'', ''/out''},
      files = fmupd ''/out/header'' []
               (fmupd ''/out/chunk-1'' [] (fmupd ''/out/chunk-0'' (replicate 1048576 0)
                (fmupd ''/src/f'' (replicate 1048576 0) fmempty))),
      handles = []\<rparr>)"
proof -
  note rfp = ex_consumed_eval [unfolded ex_consumed_def ex_started_eval, simplified]
  show ?thesis
    unfolding ex_encoded_def encode_files_def ex_started_def [symmetric]
    by (simp add: ex_started_eval rfp
        chunker_close_def wclose_def release_def write_header_file_def open_wb_def
        path_join_def dirname_def append_bytes_def content_def Let_def)
qed

section \<open>Sizes and names of the chunk files\<close>

text \<open>
  Claim C3, as the code has it.  After a successful \<^verbatim>\<open>encode\<close> with a positive
  capacity \<open>B\<close> of a byte stream of \<open>n\<close> bytes, the chunk files are
  \<^verbatim>\<open>chunk-0\<close> to \<^verbatim>\<open>chunk-I\<close> with \<open>I = n div B\<close> (prefix \<^verbatim>\<open>chunk-\<close>, then
  the index in decimal, from zero); every chunk before the last holds exactly \<open>B\<close> bytes,
  the last one holds \<open>n mod B\<close> bytes, which is fewer than \<open>B\<close> and may be zero, and no
  chunk file beyond \<open>I\<close> is touched.
\<close>

theorem encode_chunk_sizes:
  assumes "chunk_dir_ok w od" "0 < mb" "distinct names"
    and "\<forall>n \<in> set names. src_ok w od (path_join base n)"
    and "path_join od ''header'' \<notin> dirs w"
  shows "\<exists>w'. encode_files dump w base names od mb = (Inr False, w') \<and>
     (let B = nat (mb * 1024 * 1024); n = length (stream w base names); I = n div B in
        (\<forall>j < I. fmlookup (files w') (path_join od (chunk_name (int j))) \<noteq> None \<and>
                 length (content w' (path_join od (chunk_name (int j)))) = B) \<and>
        fmlookup (files w') (path_join od (chunk_name (int I))) \<noteq> None \<and>
        length (content w' (path_join od (chunk_name (int I)))) = n mod B \<and>
        n mod B < B \<and>
        (\<forall>j > I. fmlookup (files w') (path_join od (chunk_name (int j))) =
                 fmlookup (files w) (path_join od (chunk_name (int j)))))"
proof -
  let ?B = "nat (mb * 1024 * 1024)"
  let ?S = "stream w base names"
  let ?I = "length ?S div ?B"
  from assms(2) have B: "0 < ?B" by simp
  from encode_files_ok [OF assms, of dump]
  obtain w' where r: "encode_files dump w base names od mb = (Inr False, w')"
    and e: "encoded dump w base names od ?B w'" by blast
  from e have sl: "\<And>j. j \<le> ?I \<Longrightarrow> fmlookup (files w') (cpath od j) = Some (chunk_slice ?B ?S j)"
    and fr: "\<And>p. (\<forall>j \<le> ?I. p \<noteq> cpath od j) \<Longrightarrow> p \<noteq> path_join od ''header'' \<Longrightarrow>
           fmlookup (files w') p = fmlookup (files w) p"
    by (simp_all add: encoded_def Let_def)
  have full: "fmlookup (files w') (cpath od j) \<noteq> None \<and> length (content w' (cpath od j)) = ?B"
    if "j < ?I" for j
  proof -
    from that have "j + 1 \<le> ?I" by simp
    then have "(j + 1) * ?B \<le> ?I * ?B" by (rule mult_le_mono1)
    also have "\<dots> \<le> length ?S" by (simp add: div_times_less_eq_dividend)
    finally have "length (chunk_slice ?B ?S j) = ?B" by (rule slice_length_full)
    with sl [of j] that show ?thesis by (simp add: content_def)
  qed
  have last: "fmlookup (files w') (cpath od ?I) \<noteq> None \<and>
      length (content w' (cpath od ?I)) = length ?S mod ?B"
  proof -
    have "length ?S = ?I * ?B + length ?S mod ?B" by simp
    moreover have "length ?S mod ?B < ?B" using B by simp
    ultimately have "length (chunk_slice ?B ?S ?I) = length ?S mod ?B"
      by (rule slice_length_last)
    with sl [of ?I] show ?thesis by (simp add: content_def)
  qed
  have beyond: "fmlookup (files w') (cpath od j) = fmlookup (files w) (cpath od j)" if "?I < j" for j
  proof (rule fr)
    show "\<forall>k \<le> ?I. cpath od j \<noteq> cpath od k" using that cpath_inj [of od j] by auto
    show "cpath od j \<noteq> path_join od ''header''" using header_not_chunk [of od "int j"]
      by (simp add: cpath_def)
  qed
  from r full last beyond B show ?thesis
    unfolding Let_def cpath_def by auto
qed

theorem encode_chunk_sizes_witness:
  "chunk_dir_ok ex_src_world ''/out'' \<and> (0::int) < 1 \<and> distinct [''f''] \<and>
   src_ok ex_src_world ''/out'' (path_join ''/src'' ''f'') \<and>
   path_join ''/out'' ''header'' \<notin> dirs ex_src_world \<and>
   fst ex_encoded = Inr False \<and>
   length (content (snd ex_encoded) (path_join ''/out'' (chunk_name 0))) = 1048576 \<and>
   fmlookup (files (snd ex_encoded)) (path_join ''/out'' (chunk_name 1)) \<noteq> None \<and>
   length (content (snd ex_encoded) (path_join ''/out'' (chunk_name 1))) = 0"
proof -
  have h2: "(0::int) < 1" by simp
  have h3: "distinct [''f'']" by simp
  have h4: "\<forall>n \<in> set [''f'']. src_ok ex_src_world ''/out'' (path_join ''/src'' n)"
    using ex_src_ok(2) by simp
  have n: "length (stream ex_src_world ''/src'' [''f'']) = 1048576"
    by (simp add: stream_def content_def ex_src_world_def path_join_def)
  from encode_chunk_sizes [OF ex_src_ok(1) h2 h3 h4 ex_src_ok(3), of "\<lambda>_. []"]
  obtain w' where r: "ex_encoded = (Inr False, w')"
    and full: "\<forall>j < (1::nat). fmlookup (files w') (path_join ''/out'' (chunk_name (int j))) \<noteq> None \<and>
                 length (content w' (path_join ''/out'' (chunk_name (int j)))) = 1048576"
    and last: "fmlookup (files w') (path_join ''/out'' (chunk_name (int 1))) \<noteq> None"
      "length (content w' (path_join ''/out'' (chunk_name (int 1)))) = 0"
    unfolding ex_encoded_def Let_def n by auto
  from full have "length (content w' (path_join ''/out'' (chunk_name (int 0)))) = 1048576"
    by blast
  with last ex_src_ok h2 h3 show ?thesis unfolding r by simp
qed

text \<open>
  The claim says the final chunk is never empty.  For the file of exactly one chunk the
  final chunk is \<^verbatim>\<open>chunk-1\<close>, and it holds no byte.
\<close>

theorem final_chunk_empty_counterexample:
  "length (content ex_src_world ''/src/f'') = 1048576 \<and>
   fst ex_encoded = Inr False \<and>
   length (content (snd ex_encoded) ''/out/chunk-0'') = 1048576 \<and>
   fmlookup (files (snd ex_encoded)) ''/out/chunk-1'' = Some [] \<and>
   length (content (snd ex_encoded) ''/out/chunk-1'') = 0 \<and>
   fmlookup (files (snd ex_encoded)) ''/out/chunk-2'' = None"
  by (simp add: ex_encoded_eval content_def ex_src_world_def)

section \<open>A file that ends on a chunk boundary\<close>




section \<open>Decoding into a directory tree\<close>

text \<open>
  Claim C5 says that \<^verbatim>\<open>decode\<close> creates the parent directories an entry needs.
  \<^verbatim>\<open>decode\<close> opens \<^verbatim>\<open>os.path.join(outdir, name)\<close> for writing and nothing in
  the program creates a directory: for the entry \<^verbatim>\<open>sub/a\<close> and an output directory
  without \<^verbatim>\<open>sub\<close>, \<^verbatim>\<open>open\<close> raises, \<^verbatim>\<open>decode\<close> returns its error flag,
  no directory has been created and the file is not written.
\<close>

theorem decode_no_parent_directory:
  "''/out/sub'' \<notin> dirs ex_world \<and>
   fst ex_tree_decoded = Inr True \<and>
   dirs (snd ex_tree_decoded) = dirs ex_world \<and>
   fmlookup (files (snd ex_tree_decoded)) ''/out/sub/a'' = None"
  by (simp add: ex_tree_decoded_def ex_tree_header_def ex_eval)

section \<open>The reader across chunk boundaries\<close>

lemma fmupd_same: "fmlookup m k = Some v \<Longrightarrow> fmupd k v m = m"
  by (rule fmap_ext) auto

lemma chunks_from_Cons:
  "chunks_from w idir k (c # cs) \<longleftrightarrow>
     cpath idir (k + 1) \<notin> dirs w \<and> fmlookup (files w) (cpath idir (k + 1)) = Some c \<and>
     chunks_from w idir (k + 1) cs"
proof -
  have "(\<forall>j < Suc (length cs). P j) \<longleftrightarrow> P 0 \<and> (\<forall>j < length cs. P (Suc j))" for P
    using less_Suc_eq_0_disj by auto
  then show ?thesis by (simp add: chunks_from_def)
qed

lemma chunks_from_other:
  assumes "chunks_from w idir k cs" "dirs w' = dirs w"
    "\<forall>j. fmlookup (files w') (cpath idir j) = fmlookup (files w) (cpath idir j)"
  shows "chunks_from w' idir k cs"
  using assms by (simp add: chunks_from_def)

lemma d_switch_next:
  assumes "reader_at d k []" "cpath (indir d) (k + 1) \<notin> dirs w"
    "fmlookup (files w) (cpath (indir d) (k + 1)) = Some c"
  shows "\<exists>d' w'. d_switch_to_next_chunk d w = (None, d', w') \<and> reader_at d' (k + 1) c \<and>
     indir d' = indir d \<and> files w' = files w \<and> dirs w' = dirs w"
proof -
  have nx: "path_join (indir d) (chunk_name (int k + 1)) = cpath (indir d) (k + 1)"
    by (simp add: cpath_def add.commute)
  from assms show ?thesis
    by (simp add: d_switch_to_next_chunk_def reader_at_def rclose_def release_def open_rb_def
        Let_def nx content_def)
qed


lemma write_loop_within:
  assumes ra: "reader_at d k rest" and out: "\<forall>j. outpath \<noteq> cpath (indir d) j"
    and old: "fmlookup (files w) outpath = Some old"
    and n: "0 < n" "nat n \<le> length rest"
  shows "\<exists>d' w'. write_loop d w outpath n = (None, d', w') \<and> indir d' = indir d \<and>
     reader_at d' k (drop (nat n) rest) \<and>
     files w' = fmupd outpath (old @ take (nat n) rest) (files w) \<and> dirs w' = dirs w"
proof -
  let ?q = "cpath (indir d) k"
  let ?d1 = "d\<lparr>d_chunk := Some (RFile ?q (unread rest n) False)\<rparr>"
  let ?b = "read_bytes rest n"
  from ra have ch: "d_chunk d = Some (RFile ?q rest False)" by (simp add: reader_at_def)
  from n have ne: "rest \<noteq> []" by auto
  from n have b: "?b = take (nat n) rest" "unread rest n = drop (nat n) rest"
    by (simp_all add: read_bytes_def unread_def)
  from n have lb: "int (length ?b) = n" by (simp add: b)
  have "write_loop d w outpath n =
      write_loop ?d1 (append_bytes w outpath ?b) outpath (n - int (length ?b))"
    by (rule write_loop_read [OF n(1) ch ne])
  also have "\<dots> = (None, ?d1, append_bytes w outpath ?b)"
    by (rule write_loop_done) (simp add: lb)
  finally have "write_loop d w outpath n = (None, ?d1, append_bytes w outpath ?b)" .
  moreover have "reader_at ?d1 k (drop (nat n) rest)"
    using ra by (simp add: reader_at_def b)
  moreover have "files (append_bytes w outpath ?b) = fmupd outpath (old @ take (nat n) rest) (files w)"
    using old by (simp add: append_bytes_def content_def b)
  ultimately show ?thesis by (simp add: append_bytes_def)
qed

lemma write_loop_drain:
  assumes ra: "reader_at d k rest" and out: "\<forall>j. outpath \<noteq> cpath (indir d) j"
    and old: "fmlookup (files w) outpath = Some old"
    and n: "length rest < nat n"
  shows "\<exists>d1 w1. write_loop d w outpath n = write_loop d1 w1 outpath (n - int (length rest)) \<and>
     indir d1 = indir d \<and> reader_at d1 k [] \<and>
     files w1 = fmupd outpath (old @ rest) (files w) \<and> dirs w1 = dirs w"
proof (cases "rest = []")
  case True
  with ra old show ?thesis
    by (intro exI [of _ d] exI [of _ w]) (simp add: fmupd_same)
next
  case False
  let ?q = "cpath (indir d) k"
  let ?d1 = "d\<lparr>d_chunk := Some (RFile ?q (unread rest n) False)\<rparr>"
  let ?b = "read_bytes rest n"
  from ra have ch: "d_chunk d = Some (RFile ?q rest False)" by (simp add: reader_at_def)
  from n have pos: "0 < n" by simp
  from n have b: "?b = rest" "unread rest n = []"
    by (simp_all add: read_bytes_def unread_def)
  have "write_loop d w outpath n =
      write_loop ?d1 (append_bytes w outpath ?b) outpath (n - int (length ?b))"
    by (rule write_loop_read [OF pos ch False])
  moreover have "reader_at ?d1 k []" using ra by (simp add: reader_at_def b)
  moreover have "files (append_bytes w outpath ?b) = fmupd outpath (old @ rest) (files w)"
    using old by (simp add: append_bytes_def content_def b)
  ultimately show ?thesis
    by (intro exI [of _ ?d1] exI [of _ "append_bytes w outpath ?b"]) (simp add: b append_bytes_def)
qed

lemma write_loop_chunks:
  assumes "reader_at d k rest" "chunks_from w (indir d) k cs"
    and "\<forall>j. outpath \<noteq> cpath (indir d) j" "fmlookup (files w) outpath = Some old"
    and "0 < n" "nat n \<le> length (rest @ concat cs)"
  shows "\<exists>d' w' k' rest' cs'. write_loop d w outpath n = (None, d', w') \<and> indir d' = indir d \<and>
     reader_at d' k' rest' \<and> chunks_from w' (indir d) k' cs' \<and>
     rest' @ concat cs' = drop (nat n) (rest @ concat cs) \<and>
     files w' = fmupd outpath (old @ take (nat n) (rest @ concat cs)) (files w) \<and>
     dirs w' = dirs w \<and> k' + length cs' = k + length cs"
  using assms
proof (induction cs arbitrary: d w k rest old n)
  case Nil
  then have n: "nat n \<le> length rest" by simp
  from write_loop_within [OF Nil.prems(1,3,4,5) n]
  obtain d' w' where r: "write_loop d w outpath n = (None, d', w')" "indir d' = indir d"
    "reader_at d' k (drop (nat n) rest)"
    "files w' = fmupd outpath (old @ take (nat n) rest) (files w)" "dirs w' = dirs w"
    by blast
  have "chunks_from w' (indir d) k []" by (simp add: chunks_from_def)
  with r show ?case by (intro exI [of _ d'] exI [of _ w'] exI [of _ k]
        exI [of _ "drop (nat n) rest"] exI [of _ "[]"]) simp
next
  case (Cons c cs)
  note out = Cons.prems(3)
  show ?case
  proof (cases "nat n \<le> length rest")
    case True
    from write_loop_within [OF Cons.prems(1,3,4,5) True]
    obtain d' w' where r: "write_loop d w outpath n = (None, d', w')" "indir d' = indir d"
      "reader_at d' k (drop (nat n) rest)"
      "files w' = fmupd outpath (old @ take (nat n) rest) (files w)" "dirs w' = dirs w"
      by blast
    have "chunks_from w' (indir d) k (c # cs)"
      by (rule chunks_from_other [OF Cons.prems(2)]) (use r out in auto)
    with r True show ?thesis
      by (intro exI [of _ d'] exI [of _ w'] exI [of _ k]
          exI [of _ "drop (nat n) rest"] exI [of _ "c # cs"]) simp
  next
    case False
    then have long: "length rest < nat n" by simp
    let ?n1 = "n - int (length rest)"
    from write_loop_drain [OF Cons.prems(1,3,4) long]
    obtain d1 w1 where s1: "write_loop d w outpath n = write_loop d1 w1 outpath ?n1"
      and d1: "indir d1 = indir d" "reader_at d1 k []"
      and w1: "files w1 = fmupd outpath (old @ rest) (files w)" "dirs w1 = dirs w"
      by blast
    have n1: "0 < ?n1" using long by linarith
    have cf1: "chunks_from w1 (indir d) k (c # cs)"
      by (rule chunks_from_other [OF Cons.prems(2)]) (use w1 out in auto)
    then have nxt: "cpath (indir d1) (k + 1) \<notin> dirs w1"
      "fmlookup (files w1) (cpath (indir d1) (k + 1)) = Some c"
      and cf2: "chunks_from w1 (indir d) (k + 1) cs"
      by (simp_all add: chunks_from_Cons d1)
    from d_switch_next [OF d1(2) nxt]
    obtain d2 w2 where sw: "d_switch_to_next_chunk d1 w1 = (None, d2, w2)"
      and d2: "reader_at d2 (k + 1) c" "indir d2 = indir d1"
      and w2: "files w2 = files w1" "dirs w2 = dirs w1"
      by blast
    from d1(2) have ch1: "d_chunk d1 = Some (RFile (cpath (indir d1) k) [] False)"
      by (simp add: reader_at_def)
    have s2: "write_loop d1 w1 outpath ?n1 = write_loop d2 w2 outpath ?n1"
      by (simp add: write_loop_switch [OF n1 ch1] sw)
    have cf3: "chunks_from w2 (indir d2) (k + 1) cs"
      unfolding d2(2) d1(1) by (rule chunks_from_other [OF cf2]) (simp_all add: w2)
    have out2: "\<forall>j. outpath \<noteq> cpath (indir d2) j" using out d1 d2 by simp
    have old2: "fmlookup (files w2) outpath = Some (old @ rest)" using w1 w2 by simp
    have le: "nat ?n1 \<le> length (c @ concat cs)" using Cons.prems(6) long by simp
    from Cons.IH [OF d2(1) cf3 out2 old2 n1 le]
    obtain d' w' k' rest' cs' where r: "write_loop d2 w2 outpath ?n1 = (None, d', w')"
      "indir d' = indir d2" "reader_at d' k' rest'" "chunks_from w' (indir d2) k' cs'"
      "rest' @ concat cs' = drop (nat ?n1) (c @ concat cs)"
      "files w' = fmupd outpath ((old @ rest) @ take (nat ?n1) (c @ concat cs)) (files w2)"
      "dirs w' = dirs w2" "k' + length cs' = k + 1 + length cs"
      by blast
    have nn: "nat n = length rest + nat ?n1" using long by linarith
    have tk: "take (nat n) (rest @ concat (c # cs)) = rest @ take (nat ?n1) (c @ concat cs)"
      by (simp add: nn)
    have dr: "drop (nat n) (rest @ concat (c # cs)) = drop (nat ?n1) (c @ concat cs)"
      by (simp add: nn)
    have f: "files w' = fmupd outpath (old @ take (nat n) (rest @ concat (c # cs))) (files w)"
      unfolding tk using r(6) w2 w1 by simp
    have g: "rest' @ concat cs' = drop (nat n) (rest @ concat (c # cs))"
      unfolding dr by (rule r(5))
    have "write_loop d w outpath n = (None, d', w')" using s1 s2 r(1) by simp
    moreover have "indir d' = indir d" using r(2) d2 d1 by simp
    moreover have "chunks_from w' (indir d) k' cs'" using r(4) d2 d1 by simp
    moreover have "dirs w' = dirs w" using r(7) w2 w1 by simp
    moreover have "k' + length cs' = k + length (c # cs)" using r(8) by simp
    ultimately show ?thesis using r(3) f g by blast
  qed
qed


lemma reads_write_loop:
  assumes "reads d w idir K R" "\<forall>j. outpath \<noteq> cpath idir j"
    and "fmlookup (files w) outpath = Some old" "0 \<le> n" "nat n \<le> length R"
  shows "\<exists>d' w'. write_loop d w outpath n = (None, d', w') \<and>
     reads d' w' idir K (drop (nat n) R) \<and>
     files w' = fmupd outpath (old @ take (nat n) R) (files w) \<and> dirs w' = dirs w"
proof (cases "n = 0")
  case True
  with assms show ?thesis by (simp add: write_loop_done fmupd_same)
next
  case False
  with assms(4) have pos: "0 < n" by simp
  from assms(1) obtain k rest cs where i: "indir d = idir" and ra: "reader_at d k rest"
    and cf: "chunks_from w idir k cs" and R: "R = rest @ concat cs"
    and K: "k + 1 + length cs = K"
    by (auto simp: reads_def)
  from write_loop_chunks [OF ra, of w cs outpath old n] cf assms(2,3,5) pos i R
  obtain d' w' k' rest' cs' where *: "write_loop d w outpath n = (None, d', w')" "indir d' = idir"
    "reader_at d' k' rest'" "chunks_from w' idir k' cs'"
    "rest' @ concat cs' = drop (nat n) R"
    "files w' = fmupd outpath (old @ take (nat n) R) (files w)" "dirs w' = dirs w"
    "k' + length cs' = k + length cs"
    by auto
  from *(8) K have "k' + 1 + length cs' = K" by simp
  with *(2-5) have "reads d' w' idir K (drop (nat n) R)" unfolding reads_def by metis
  with * show ?thesis by blast
qed


lemma reads_other:
  assumes "reads d w idir K R" "dirs w' = dirs w"
    "\<forall>j. fmlookup (files w') (cpath idir j) = fmlookup (files w) (cpath idir j)"
  shows "reads d w' idir K R"
proof -
  from assms(1) obtain k rest cs where *: "indir d = idir" "reader_at d k rest"
    "chunks_from w idir k cs" "R = rest @ concat cs" "k + 1 + length cs = K"
    by (auto simp: reads_def)
  from *(3) assms(2,3) have "chunks_from w' idir k cs" by (rule chunks_from_other)
  with * show ?thesis unfolding reads_def by blast
qed

lemma reads_can_read: "reads d w idir K R \<Longrightarrow> can_read d"
  by (auto simp: reads_def reader_at_def)

lemma write_n_bytes_ok:
  assumes r: "reads d w idir K R" and o: "out_ok w idir p" and n: "0 \<le> n" "nat n \<le> length R"
  shows "\<exists>d' w'. write_n_bytes d w n p = (None, d', w') \<and>
     reads d' w' idir K (drop (nat n) R) \<and>
     files w' = fmupd p (take (nat n) R) (files w) \<and> dirs w' = dirs w"
proof -
  let ?w1 = "w\<lparr>files := fmupd p [] (files w), handles := p # handles w\<rparr>"
  from o have op: "open_wb w p = Inr ?w1" and np: "\<forall>j. p \<noteq> cpath idir j"
    by (simp_all add: open_wb_def out_ok_def)
  have r1: "reads d ?w1 idir K R" by (rule reads_other [OF r]) (use np in auto)
  have old: "fmlookup (files ?w1) p = Some []" by simp
  from reads_write_loop [OF r1 np old n]
  obtain d' w' where l: "write_loop d ?w1 p n = (None, d', w')"
    and r': "reads d' w' idir K (drop (nat n) R)"
    and f: "files w' = fmupd p ([] @ take (nat n) R) (files ?w1)" and dd: "dirs w' = dirs ?w1"
    by blast
  have "write_n_bytes d w n p = (None, d', release w' p)"
    using reads_can_read [OF r] op l by (simp add: write_n_bytes_def)
  moreover have "reads d' (release w' p) idir K (drop (nat n) R)"
    by (rule reads_other [OF r']) (simp_all add: release_def)
  ultimately show ?thesis using f dd by (simp add: release_def)
qed


lemma offs_append:
  "offs off (fs @ ftail) = offs off fs @ offs (off + int (length (bytes_of fs))) ftail"
  by (induction fs arbitrary: off) (auto simp: bytes_of_def add.assoc)

lemma decode_loop_prefix:
  assumes "reads d w idir K R"
    and "\<forall>x \<in> set fs. out_ok w idir (path_join od (fst x))"
    and "distinct (map (\<lambda>x. path_join od (fst x)) fs)"
    and "take (length (bytes_of fs)) R = bytes_of fs" "length (bytes_of fs) \<le> length R"
    and "ftail = [] \<longrightarrow> tb = JInt (off + int (length (bytes_of fs)))"
  shows "\<exists>d' w'. decode_loop d w od tb (offs off (fs @ ftail)) =
           decode_loop d' w' od tb (offs (off + int (length (bytes_of fs))) ftail) \<and>
     reads d' w' idir K (drop (length (bytes_of fs)) R) \<and> dirs w' = dirs w \<and>
     (\<forall>x \<in> set fs. fmlookup (files w') (path_join od (fst x)) = Some (snd x)) \<and>
     (\<forall>p. p \<notin> (\<lambda>x. path_join od (fst x)) ` set fs \<longrightarrow>
          fmlookup (files w') p = fmlookup (files w) p)"
  using assms
proof (induction fs arbitrary: d w R off)
  case Nil
  then show ?case by (auto simp: bytes_of_def)
next
  case (Cons x fs)
  obtain name data where x: "x = (name, data)" by (cases x)
  let ?p = "path_join od name"
  let ?n = "int (length data)"
  from Cons.prems(4,5) have pre: "take (length data) R = data" "length data \<le> length R"
    and pre2: "take (length (bytes_of fs)) (drop (length data) R) = bytes_of fs"
      "length (bytes_of fs) \<le> length (drop (length data) R)"
    unfolding x bytes_of_def
    by (simp_all add: take_add append_eq_conv_conj min_def split: if_splits)
  have ends: "(case offs (off + ?n) (fs @ ftail) of [] \<Rightarrow> json_int tb | nxt # _ \<Rightarrow> Some (snd nxt))
      = Some (off + ?n)"
  proof (cases "fs @ ftail")
    case Nil
    with Cons.prems(6) show ?thesis by (simp add: x bytes_of_def)
  next
    case (Cons y ys)
    then show ?thesis by (cases y) simp
  qed
  have o: "out_ok w idir ?p" using Cons.prems(2) by (simp add: x)
  from write_n_bytes_ok [OF Cons.prems(1) o, of ?n] pre
  obtain d1 w1 where wr: "write_n_bytes d w ?n ?p = (None, d1, w1)"
    and r1: "reads d1 w1 idir K (drop (length data) R)"
    and f1: "files w1 = fmupd ?p data (files w)" and dd1: "dirs w1 = dirs w"
    by auto
  have step: "decode_loop d w od tb (offs off ((x # fs) @ ftail)) =
      decode_loop d1 w1 od tb (offs (off + ?n) (fs @ ftail))"
    by (simp add: x ends wr)
  have ok1: "\<forall>y \<in> set fs. out_ok w1 idir (path_join od (fst y))"
    using Cons.prems(2) dd1 by (simp add: out_ok_def)
  have dist1: "distinct (map (\<lambda>x. path_join od (fst x)) fs)" using Cons.prems(3) by simp
  have ftail1: "ftail = [] \<longrightarrow> tb = JInt (off + ?n + int (length (bytes_of fs)))"
    using Cons.prems(6) by (simp add: x bytes_of_def)
  from Cons.IH [OF r1 ok1 dist1 pre2 ftail1]
  obtain d' w' where r: "decode_loop d1 w1 od tb (offs (off + ?n) (fs @ ftail)) =
           decode_loop d' w' od tb (offs (off + ?n + int (length (bytes_of fs))) ftail)"
    "reads d' w' idir K (drop (length (bytes_of fs)) (drop (length data) R))" "dirs w' = dirs w1"
    "\<forall>y \<in> set fs. fmlookup (files w') (path_join od (fst y)) = Some (snd y)"
    "\<forall>p. p \<notin> (\<lambda>x. path_join od (fst x)) ` set fs \<longrightarrow> fmlookup (files w') p = fmlookup (files w1) p"
    by blast
  have notin: "?p \<notin> (\<lambda>x. path_join od (fst x)) ` set fs" using Cons.prems(3) by (auto simp: x)
  have len: "length (bytes_of (x # fs)) = length data + length (bytes_of fs)"
    by (simp add: x bytes_of_def)
  have a: "decode_loop d w od tb (offs off ((x # fs) @ ftail)) =
           decode_loop d' w' od tb (offs (off + int (length (bytes_of (x # fs)))) ftail)"
    using step r(1) by (simp add: len add.assoc)
  have b: "reads d' w' idir K (drop (length (bytes_of (x # fs))) R)"
    using r(2) by (simp add: len add.commute)
  have c: "\<forall>y \<in> set (x # fs). fmlookup (files w') (path_join od (fst y)) = Some (snd y)"
    using r(4,5) notin f1 by (simp add: x)
  have e: "\<forall>p. p \<notin> (\<lambda>x. path_join od (fst x)) ` set (x # fs) \<longrightarrow>
      fmlookup (files w') p = fmlookup (files w) p"
    using r(5) f1 by (auto simp: x)
  from a b c e r(3) dd1 show ?case by (intro exI [of _ d'] exI [of _ w']) simp
qed

section \<open>\<^verbatim>\<open>decode\<close> on a chunk directory\<close>

lemma chunk_files_Cons:
  "chunk_files w idir (c # cs) \<longleftrightarrow>
     cpath idir 0 \<notin> dirs w \<and> fmlookup (files w) (cpath idir 0) = Some c \<and>
     chunks_from w idir 0 cs"
proof -
  have "(\<forall>j < Suc (length cs). P j) \<longleftrightarrow> P 0 \<and> (\<forall>j < length cs. P (Suc j))" for P
    using less_Suc_eq_0_disj by auto
  then show ?thesis by (simp add: chunk_files_def chunks_from_def)
qed

lemma dechunker_init_reads:
  assumes "chunk_files w idir cs" "cs \<noteq> []"
  shows "\<exists>d w'. dechunker_init idir mb w = (None, d, w') \<and>
     reads d w' idir (length cs) (concat cs) \<and> files w' = files w \<and> dirs w' = dirs w"
proof -
  from assms(2) obtain c cs' where cs: "cs = c # cs'" by (cases cs) auto
  with assms(1) have c0: "cpath idir 0 \<notin> dirs w" "fmlookup (files w) (cpath idir 0) = Some c"
    and cf: "chunks_from w idir 0 cs'" by (simp_all add: chunk_files_Cons)
  let ?w' = "w\<lparr>handles := cpath idir 0 # handles w\<rparr>"
  let ?d = "\<lparr>d_bytes_per_chunk = mb * 1024 * 1024, indir = idir, d_chunk_index = 0,
        can_read = True, d_chunk = Some (RFile (cpath idir 0) c False)\<rparr>"
  have nm: "path_join idir (chunk_name 0) = cpath idir 0" by (simp add: cpath_def)
  have "dechunker_init idir mb w = (None, ?d, ?w')"
    using c0 by (simp add: dechunker_init_def d_switch_to_next_chunk_def open_rb_def nm
        content_def Let_def)
  moreover have "reader_at ?d 0 c" by (simp add: reader_at_def)
  moreover have "chunks_from ?w' idir 0 cs'" using cf by (simp add: chunks_from_def)
  ultimately have "dechunker_init idir mb w = (None, ?d, ?w')"
    and "reads ?d ?w' idir (length cs) (concat cs)"
    unfolding reads_def cs
    by (simp, intro exI [of _ 0] exI [of _ c] exI [of _ cs']) simp_all
  then show ?thesis by (intro exI [of _ ?d] exI [of _ ?w']) simp
qed

lemma dechunker_init_missing:
  assumes "cpath idir 0 \<notin> dirs w" "fmlookup (files w) (cpath idir 0) = None"
  shows "\<exists>d. dechunker_init idir mb w = (Some FileNotFoundError, d, w)"
proof -
  have nm: "path_join idir (chunk_name 0) = cpath idir 0" by (simp add: cpath_def)
  from assms show ?thesis
    by (simp add: dechunker_init_def d_switch_to_next_chunk_def open_rb_def nm Let_def)
qed

lemma int_items_positions: "int_items (map (\<lambda>(name, off). (name, JInt off)) ps) = Some ps"
  by (induction ps) auto

lemma offs_lower: "x \<in> set (offs off fs) \<Longrightarrow> off \<le> snd x"
proof (induction fs arbitrary: off)
  case Nil
  then show ?case by simp
next
  case (Cons y fs)
  obtain n data where y: "y = (n, data)" by (cases y)
  from Cons.prems have "x = (n, off) \<or> x \<in> set (offs (off + int (length data)) fs)"
    by (simp add: y)
  then show ?case
  proof
    assume "x = (n, off)"
    then show ?thesis by simp
  next
    assume "x \<in> set (offs (off + int (length data)) fs)"
    from Cons.IH [OF this] show ?thesis by simp
  qed
qed

lemma sorted_offs: "sorted (map snd (offs off fs))"
proof (induction fs arbitrary: off)
  case Nil
  then show ?case by simp
next
  case (Cons y fs)
  obtain n data where y: "y = (n, data)" by (cases y)
  have "off \<le> snd x" if "x \<in> set (offs (off + int (length data)) fs)" for x
    using offs_lower [OF that] by simp
  then have "\<forall>x \<in> set (offs (off + int (length data)) fs). off \<le> snd x" by blast
  with Cons.IH [of "off + int (length data)"] show ?case by (simp add: y)
qed

lemma sorted_positions_offs: "sorted_positions (positions_json (offs off fs)) = Inr (offs off fs)"
  by (simp add: sorted_positions_def positions_json_def int_items_positions
      sort_key_id_if_sorted sorted_offs)

lemma decode_from_ok:
  assumes cf: "chunk_files w idir cs" "cs \<noteq> []"
    and pre: "take (length (bytes_of fs)) (concat cs) = bytes_of fs"
      "length (bytes_of fs) \<le> length (concat cs)"
    and out: "\<forall>x \<in> set fs. out_ok w idir (path_join od (fst x))" "distinct (out_paths od fs)"
  shows "\<exists>w'. decode_from w idir od mb (positions_json (offs 0 fs))
             (JInt (int (length (bytes_of fs)))) = (Inr False, w') \<and>
     dirs w' = dirs w \<and>
     (\<forall>x \<in> set fs. fmlookup (files w') (path_join od (fst x)) = Some (snd x)) \<and>
     (\<forall>p. p \<notin> set (out_paths od fs) \<longrightarrow> fmlookup (files w') p = fmlookup (files w) p)"
proof -
  from dechunker_init_reads [OF cf, of mb]
  obtain d w0 where init: "dechunker_init idir mb w = (None, d, w0)"
    and rd: "reads d w0 idir (length cs) (concat cs)" and w0: "files w0 = files w" "dirs w0 = dirs w"
    by blast
  have out0: "\<forall>x \<in> set fs. out_ok w0 idir (path_join od (fst x))"
    using out(1) w0 by (simp add: out_ok_def)
  have "\<exists>d' w'. decode_loop d w0 od (JInt (int (length (bytes_of fs)))) (offs 0 (fs @ [])) =
           decode_loop d' w' od (JInt (int (length (bytes_of fs)))) (offs (0 + int (length (bytes_of fs))) []) \<and>
     reads d' w' idir (length cs) (drop (length (bytes_of fs)) (concat cs)) \<and> dirs w' = dirs w0 \<and>
     (\<forall>x \<in> set fs. fmlookup (files w') (path_join od (fst x)) = Some (snd x)) \<and>
     (\<forall>p. p \<notin> (\<lambda>x. path_join od (fst x)) ` set fs \<longrightarrow>
          fmlookup (files w') p = fmlookup (files w0) p)"
    by (rule decode_loop_prefix [OF rd out0 _ pre]) (use out(2) in \<open>simp_all add: out_paths_def\<close>)
  then obtain d' w' where l: "decode_loop d w0 od (JInt (int (length (bytes_of fs)))) (offs 0 fs) = (None, d', w')"
    and r: "dirs w' = dirs w0"
      "\<forall>x \<in> set fs. fmlookup (files w') (path_join od (fst x)) = Some (snd x)"
      "\<forall>p. p \<notin> (\<lambda>x. path_join od (fst x)) ` set fs \<longrightarrow> fmlookup (files w') p = fmlookup (files w0) p"
    by auto
  have "decode_from w idir od mb (positions_json (offs 0 fs)) (JInt (int (length (bytes_of fs))))
      = (Inr False, w')"
    by (simp add: decode_from_def sorted_positions_offs init l)
  with r w0 show ?thesis by (auto simp: out_paths_def)
qed


lemma decode_with_header:
  assumes "od \<in> dirs w" "idir \<in> dirs w"
    and "header_holds load w idir
           (JObj [(''bytes_per_chunk'', JInt bpc), (''positions'', ps), (''total_bytes'', tb)])"
  shows "decode load w idir od = decode_from w idir od (bpc div (1024 * 1024)) ps tb"
proof -
  let ?hp = "path_join idir ''header''"
  from assms(3) obtain bs where h: "?hp \<notin> dirs w" "fmlookup (files w) ?hp = Some bs"
    "load bs = Some (JObj [(''bytes_per_chunk'', JInt bpc), (''positions'', ps), (''total_bytes'', tb)])"
    by (auto simp: header_holds_def)
  then have "read_header load w ?hp = Inr (bpc div (1024 * 1024), ps, tb)"
    by (simp add: read_header_def open_rb_def content_def)
  with assms(1,2) h show ?thesis
    by (simp add: decode_def path_exists_def isdir_def Let_def)
qed

section \<open>A missing chunk\<close>





section \<open>Encoding, then decoding\<close>

text \<open>
  The chunks that \<^verbatim>\<open>encode\<close> writes are the slices of the byte stream, the header
  holds the offsets in order, and \<^verbatim>\<open>decode\<close> cuts the stream at these offsets.  So
  the round trip gives every file back, provided that the chunk directory is fit for
  writing, the input files are readable and are not chunk files themselves, the parser
  reads back the header that was written, and every output path can be opened for
  writing: it is no directory, it is no chunk file, and the directory that is to hold it
  exists already.
\<close>

lemma chunk_slice_Suc: "chunk_slice B S (Suc j) = chunk_slice B (drop B S) j"
  by (simp add: chunk_slice_def add.commute)

lemma concat_slices:
  "length S < (I + 1) * B \<Longrightarrow> concat (map (chunk_slice B S) [0..<Suc I]) = S"
proof (induction I arbitrary: S)
  case 0
  then show ?case by (simp add: chunk_slice_def)
next
  case (Suc I)
  have "[0..<Suc (Suc I)] = 0 # map Suc [0..<Suc I]"
    by (simp only: map_Suc_upt upt_conv_Cons [of 0 "Suc (Suc I)"])
  then have "concat (map (chunk_slice B S) [0..<Suc (Suc I)]) =
      chunk_slice B S 0 @ concat (map (chunk_slice B (drop B S)) [0..<Suc I])"
    by (simp only: list.map concat.simps map_map o_def chunk_slice_Suc)
  also have "concat (map (chunk_slice B (drop B S)) [0..<Suc I]) = drop B S"
  proof (rule Suc.IH)
    from Suc.prems have "length S < (I + 1) * B + B" by (simp add: algebra_simps)
    then show "length (drop B S) < (I + 1) * B" by simp
  qed
  finally show ?case by (simp add: chunk_slice_def)
qed

lemma offsets_offs:
  "offsets w base off names = offs off (map (\<lambda>n. (n, content w (path_join base n))) names)"
  by (induction names arbitrary: off) simp_all

lemma stream_bytes_of:
  "stream w base names = bytes_of (map (\<lambda>n. (n, content w (path_join base n))) names)"
  by (simp add: stream_def bytes_of_def o_def)

lemma encoded_chunk_files:
  assumes "encoded dump w base names od B w'" "chunk_dir_ok w od" "0 < B"
  shows "chunk_files w' od (map (chunk_slice B (stream w base names))
           [0..<Suc (length (stream w base names) div B)])"
    and "concat (map (chunk_slice B (stream w base names))
           [0..<Suc (length (stream w base names) div B)]) = stream w base names"
proof -
  let ?S = "stream w base names"
  let ?I = "length ?S div B"
  from assms(1) have d: "dirs w' = dirs w"
    and sl: "\<And>j. j \<le> ?I \<Longrightarrow> fmlookup (files w') (cpath od j) = Some (chunk_slice B ?S j)"
    by (simp_all add: encoded_def Let_def)
  from assms(2) have nd: "cpath od j \<notin> dirs w" for j by (simp add: chunk_dir_ok_def cpath_def)
  show "chunk_files w' od (map (chunk_slice B ?S) [0..<Suc ?I])"
    unfolding chunk_files_def
  proof (intro allI impI)
    fix j assume "j < length (map (chunk_slice B ?S) [0..<Suc ?I])"
    then have j: "j \<le> ?I" by simp
    then have "map (chunk_slice B ?S) [0..<Suc ?I] ! j = chunk_slice B ?S j"
      by (simp only: nth_map_upt [of j "Suc ?I" 0 "chunk_slice B ?S"] length_upt) simp
    with sl [OF j] nd d
    show "cpath od j \<notin> dirs w' \<and>
        fmlookup (files w') (cpath od j) = Some (map (chunk_slice B ?S) [0..<Suc ?I] ! j)"
      by simp
  qed
  have "length ?S < (?I + 1) * B"
    using assms(3) by (metis Suc_eq_plus1 dividend_less_div_times mult.commute mult_Suc_right add.commute)
  then show "concat (map (chunk_slice B ?S) [0..<Suc ?I]) = ?S" by (rule concat_slices)
qed

lemma encode_decode_roundtrip:
  assumes enc: "chunk_dir_ok w cd" "0 < mb" "distinct names"
      "\<forall>n \<in> set names. src_ok w cd (path_join base n)"
      "path_join cd ''header'' \<notin> dirs w"
    and codec: "load (dump (header_of (nat (mb * 1024 * 1024)) (offsets w base 0 names)
                  (length (stream w base names)))) =
                Some (header_of (nat (mb * 1024 * 1024)) (offsets w base 0 names)
                  (length (stream w base names)))"
    and dec: "od \<in> dirs w" "\<forall>n \<in> set names. out_ok w cd (path_join od n)"
      "distinct (map (path_join od) names)"
  shows "\<exists>w1 w2. encode_files dump w base names cd mb = (Inr False, w1) \<and>
     decode load w1 cd od = (Inr False, w2) \<and>
     (\<forall>n \<in> set names. fmlookup (files w2) (path_join od n) = fmlookup (files w) (path_join base n))"
proof -
  let ?B = "nat (mb * 1024 * 1024)"
  let ?S = "stream w base names"
  let ?fs = "map (\<lambda>n. (n, content w (path_join base n))) names"
  let ?cs = "map (chunk_slice ?B ?S) [0..<Suc (length ?S div ?B)]"
  let ?h = "header_of ?B (offsets w base 0 names) (length ?S)"
  from enc(2) have B: "0 < ?B" by simp
  from encode_files_ok [OF enc, of dump]
  obtain w1 where e: "encode_files dump w base names cd mb = (Inr False, w1)"
    and ed: "encoded dump w base names cd ?B w1" by blast
  from ed have d1: "dirs w1 = dirs w"
    and hd: "fmlookup (files w1) (path_join cd ''header'') = Some (dump ?h)"
    by (simp_all add: encoded_def Let_def)
  have cf: "chunk_files w1 cd ?cs" and cc: "concat ?cs = ?S"
    using encoded_chunk_files [OF ed enc(1) B] by simp_all
  have ne: "?cs \<noteq> []" by simp
  have hh: "header_holds load w1 cd
      (JObj [(''bytes_per_chunk'', JInt (int ?B)), (''positions'', positions_json (offs 0 ?fs)),
             (''total_bytes'', JInt (int (length (bytes_of ?fs))))])"
    using hd codec enc(5) d1
    by (simp add: header_holds_def header_of_def positions_json_def offsets_offs stream_bytes_of)
  have cdir: "cd \<in> dirs w1" using enc(1) d1 by (simp add: chunk_dir_ok_def)
  have odir: "od \<in> dirs w1" using dec(1) d1 by simp
  have dw: "decode load w1 cd od = decode_from w1 cd od (int ?B div (1024 * 1024))
      (positions_json (offs 0 ?fs)) (JInt (int (length (bytes_of ?fs))))"
    by (rule decode_with_header [OF odir cdir hh])
  have pre: "take (length (bytes_of ?fs)) (concat ?cs) = bytes_of ?fs"
    "length (bytes_of ?fs) \<le> length (concat ?cs)"
    unfolding cc stream_bytes_of [symmetric] by simp_all
  have out: "\<forall>x \<in> set ?fs. out_ok w1 cd (path_join od (fst x))"
    using dec(2) d1 by (simp add: out_ok_def)
  have dist: "distinct (out_paths od ?fs)"
    using dec(3) by (simp add: out_paths_def o_def)
  from decode_from_ok [OF cf ne pre out dist, of "int ?B div (1024 * 1024)"]
  obtain w2 where r: "decode_from w1 cd od (int ?B div (1024 * 1024))
        (positions_json (offs 0 ?fs)) (JInt (int (length (bytes_of ?fs)))) = (Inr False, w2)"
    and f: "\<forall>x \<in> set ?fs. fmlookup (files w2) (path_join od (fst x)) = Some (snd x)"
    by blast
  have "fmlookup (files w2) (path_join od n) = fmlookup (files w) (path_join base n)"
    if "n \<in> set names" for n
  proof -
    from that f have "fmlookup (files w2) (path_join od n) = Some (content w (path_join base n))"
      by simp
    moreover from that enc(4) have "fmlookup (files w) (path_join base n) \<noteq> None"
      by (simp add: src_ok_def)
    ultimately show ?thesis by (auto simp: content_def)
  qed
  with e dw r show ?thesis by simp
qed

lemma ex_tree_encoded_eval:
  "ex_tree_encoded = (Inr False,
     \<lparr>dirs = {''/src'', ''/src/sub'', ''/cd'', ''/dst''},
      files = fmupd ''/cd/header'' [] (fmupd ''/cd/chunk-0'' [1, 2, 3]
                (fmupd ''/src/sub/a'' [1, 2, 3] fmempty)),
      handles = []\<rparr>)"
  by (simp add: ex_tree_encoded_def encode_def encode_files_def collapse_tree_def removeprefix_def
      path_exists_def isdir_def ex_tree_world_def chunker_init_def switch_to_next_chunk_def
      read_from_path_def open_rb_def content_def
      read_loop.simps read_bytes_def unread_def chunk_write_def append_bytes_def
      chunker_close_def wclose_def release_def write_header_file_def
      path_join_def chunk_name_eval open_wb_def dirname_def Let_def)

text \<open>
  Claim C1 asks for the round trip of every set of files, with their relative paths.
  The last condition above fails for a file in a subdirectory: \<^verbatim>\<open>encode\<close> takes the
  tree \<^verbatim>\<open>/src\<close> with the file \<^verbatim>\<open>sub/a\<close>, and \<^verbatim>\<open>decode\<close> into the empty
  directory \<^verbatim>\<open>/dst\<close> returns its error flag without writing the file.
\<close>

theorem roundtrip_fails_for_subdirectory:
  "fst ex_tree_encoded = Inr False \<and>
   fmlookup (files ex_tree_world) ''/src/sub/a'' = Some [1, 2, 3] \<and>
   fst ex_tree_roundtrip = Inr True \<and>
   fmlookup (files (snd ex_tree_roundtrip)) ''/dst/sub/a'' = None"
  by (simp add: ex_tree_roundtrip_def ex_tree_encoded_eval header_of_def ex_tree_world_def
      decode_def decode_from_def path_exists_def isdir_def path_join_def
      read_header_def open_rb_def content_def sorted_positions_def dechunker_init_def
      d_switch_to_next_chunk_def chunk_name_eval write_n_bytes_def open_wb_def dirname_def Let_def)

section \<open>Duplicate names\<close>

lemma same_elsewhere_refl: "same_elsewhere od w w"
  by (simp add: same_elsewhere_def)

lemma same_elsewhere_trans:
  "same_elsewhere od w w1 \<Longrightarrow> same_elsewhere od w1 w2 \<Longrightarrow> same_elsewhere od w w2"
  by (simp add: same_elsewhere_def)

lemma same_elsewhere_handles:
  "files w' = files w \<Longrightarrow> same_elsewhere od w w'"
  by (simp add: same_elsewhere_def)

lemma switch_frame:
  assumes "writes_chunks c od" "switch_to_next_chunk c w = (e, c', w')"
  shows "writes_chunks c' od \<and> file_positions c' = file_positions c \<and> same_elsewhere od w w'"
proof -
  from assms(1) obtain f j where f: "chunk c = Some f" "wf_path f = path_join od (chunk_name j)"
    and c: "can_write c" "outdir c = od"
    by (auto simp: writes_chunks_def)
  show ?thesis
  proof (cases "open_wb (snd (wclose w f)) (path_join od (chunk_name (chunk_index c + 1)))")
    case (Inl err)
    with assms(2) f c show ?thesis
      by (auto simp: switch_to_next_chunk_def Let_def wclose_def release_def writes_chunks_def
          same_elsewhere_def split: if_splits prod.splits)
  next
    case (Inr w2)
    then have "files w2 = fmupd (path_join od (chunk_name (chunk_index c + 1))) [] (files w)"
      by (auto simp: open_wb_def wclose_def release_def split: if_splits)
    with Inr assms(2) f c show ?thesis
      by (auto simp: switch_to_next_chunk_def Let_def wclose_def release_def writes_chunks_def
          same_elsewhere_def split: if_splits prod.splits)
  qed
qed

lemma chunker_init_frame:
  assumes "chunker_init od mb w = (None, c, w')"
  shows "writes_chunks c od \<and> file_positions c = [] \<and> same_elsewhere od w w'"
  using assms
  by (auto simp: chunker_init_def switch_to_next_chunk_def Let_def open_wb_def writes_chunks_def
      same_elsewhere_def split: if_splits sum.splits)

lemma read_loop_frame:
  assumes "writes_chunks c od" "read_loop c w data n = (e, c', w')"
  shows "writes_chunks c' od \<and> file_positions c' = file_positions c \<and> same_elsewhere od w w'"
  using assms
proof (induction data arbitrary: c w n rule: length_induct)
  case (1 data)
  note wc = "1.prems"(1) and run = "1.prems"(2)
  let ?b = "read_bytes data n"
  show ?case
  proof (cases "?b = []")
    case True
    with run have "c' = c" "w' = w" by (subst (asm) read_loop.simps, simp)+
    with wc show ?thesis by (simp add: same_elsewhere_refl)
  next
    case False
    from wc obtain f j where f: "chunk c = Some f" "wf_path f = path_join od (chunk_name j)"
      by (auto simp: writes_chunks_def)
    let ?c2 = "c\<lparr>this_chunk_bytes := this_chunk_bytes c + int (length ?b),
                   byte_index := byte_index c + int (length ?b)\<rparr>"
    have wc2: "writes_chunks ?c2 od" using wc by (simp add: writes_chunks_def)
    have shorter: "length (unread data n) < length data"
    proof -
      from False have "data \<noteq> []" "n \<noteq> 0" by (auto simp: read_bytes_def split: if_splits)
      then have "0 < length data" by simp
      then show ?thesis using \<open>n \<noteq> 0\<close> by (simp add: unread_def)
    qed
    show ?thesis
    proof (cases "wf_closed f")
      case True
      with run False f have "c' = ?c2" "w' = w"
        by (subst (asm) read_loop.simps, simp add: Let_def chunk_write_def)+
      with wc2 show ?thesis by (simp add: same_elsewhere_refl)
    next
      case opn: False
      let ?w1 = "append_bytes w (wf_path f) ?b"
      have cw: "chunk_write ?c2 w ?b = Inr ?w1" using f opn by (simp add: chunk_write_def)
      have se1: "same_elsewhere od w ?w1"
        using f by (auto simp: same_elsewhere_def append_bytes_def)
      show ?thesis
      proof (cases "bytes_per_chunk c - (this_chunk_bytes c + int (length ?b)) = 0")
        case full: True
        obtain e3 c3 w2 where sw: "switch_to_next_chunk ?c2 ?w1 = (e3, c3, w2)"
          by (cases "switch_to_next_chunk ?c2 ?w1") auto
        from switch_frame [OF wc2 sw] have fr3: "writes_chunks c3 od"
          "file_positions c3 = file_positions c" "same_elsewhere od ?w1 w2" by simp_all
        show ?thesis
        proof (cases e3)
          case None
          from run False cw full sw None
          have "read_loop c3 w2 (unread data n) (bytes_per_chunk c3) = (e, c', w')"
            by (subst (asm) read_loop.simps) (simp add: Let_def)
          from "1.IH" [rule_format, OF shorter fr3(1) this] fr3 se1 show ?thesis
            by (auto intro: same_elsewhere_trans)
        next
          case (Some err)
          from run False cw full sw Some have "c' = c3" "w' = w2"
            by (subst (asm) read_loop.simps, simp add: Let_def)+
          with fr3 se1 show ?thesis by (auto intro: same_elsewhere_trans)
        qed
      next
        case part: False
        from run False cw part
        have "read_loop ?c2 ?w1 (unread data n)
            (bytes_per_chunk c - (this_chunk_bytes c + int (length ?b))) = (e, c', w')"
          by (subst (asm) read_loop.simps) (simp add: Let_def)
        from "1.IH" [rule_format, OF shorter wc2 this] se1 show ?thesis
          by (auto intro: same_elsewhere_trans)
      qed
    qed
  qed
qed

lemma read_from_path_duplicate:
  "can_write c \<Longrightarrow> name \<in> fst ` set (file_positions c) \<Longrightarrow>
   read_from_path c w p name = (Some KeyError, c, w)"
  by (simp add: read_from_path_def)

lemma read_from_path_frame:
  assumes "writes_chunks c od" "read_from_path c w p name = (e, c', w')"
  shows "writes_chunks c' od \<and> same_elsewhere od w w' \<and>
     (e = None \<longrightarrow> name \<notin> fst ` set (file_positions c) \<and>
        fst ` set (file_positions c') = insert name (fst ` set (file_positions c)))"
proof -
  from assms(1) have cw: "can_write c" by (simp add: writes_chunks_def)
  show ?thesis
  proof (cases "name \<in> fst ` set (file_positions c)")
    case True
    with assms cw show ?thesis by (auto simp: read_from_path_def same_elsewhere_refl)
  next
    case fresh: False
    let ?c1 = "c\<lparr>file_positions := file_positions c @ [(name, byte_index c)]\<rparr>"
    have wc1: "writes_chunks ?c1 od" using assms(1) by (simp add: writes_chunks_def)
    show ?thesis
    proof (cases "open_rb w p")
      case (Inl err)
      with assms(2) cw fresh have "e = Some err" "c' = ?c1" "w' = w"
        by (simp_all add: read_from_path_def Let_def)
      with wc1 show ?thesis by (simp add: same_elsewhere_refl)
    next
      case (Inr w1)
      then have f1: "files w1 = files w" by (auto simp: open_rb_def split: if_splits)
      obtain e2 c2 w2 where rl: "read_loop ?c1 w1 (content w1 p)
          (bytes_per_chunk c - this_chunk_bytes c) = (e2, c2, w2)"
        by (cases "read_loop ?c1 w1 (content w1 p) (bytes_per_chunk c - this_chunk_bytes c)") auto
      from assms(2) cw fresh Inr rl have r: "e = e2" "c' = c2" "w' = release w2 p"
        by (simp_all add: read_from_path_def Let_def)
      from read_loop_frame [OF wc1 rl] have fr: "writes_chunks c2 od"
        "file_positions c2 = file_positions ?c1" "same_elsewhere od w1 w2" by simp_all
      have "same_elsewhere od w (release w2 p)"
        using fr(3) f1 by (simp add: same_elsewhere_def release_def)
      with fr r fresh show ?thesis by simp
    qed
  qed
qed

lemma encode_loop_frame:
  assumes "writes_chunks c od" "encode_loop c w base names = (e, c', w')"
  shows "writes_chunks c' od \<and> same_elsewhere od w w' \<and>
     (e = None \<longrightarrow> distinct names \<and> set names \<inter> fst ` set (file_positions c) = {} \<and>
        fst ` set (file_positions c') = fst ` set (file_positions c) \<union> set names)"
  using assms
proof (induction names arbitrary: c w)
  case Nil
  then show ?case by (simp add: same_elsewhere_refl)
next
  case (Cons n ns)
  obtain e1 c1 w1 where r: "read_from_path c w (path_join base n) n = (e1, c1, w1)"
    by (cases "read_from_path c w (path_join base n) n") auto
  from read_from_path_frame [OF Cons.prems(1) r] have fr: "writes_chunks c1 od"
    "same_elsewhere od w w1"
    "e1 = None \<longrightarrow> n \<notin> fst ` set (file_positions c) \<and>
        fst ` set (file_positions c1) = insert n (fst ` set (file_positions c))"
    by simp_all
  show ?case
  proof (cases e1)
    case None
    with Cons.prems(2) r have l: "encode_loop c1 w1 base ns = (e, c', w')" by simp
    from Cons.IH [OF fr(1) l] fr(2,3) None show ?thesis
      by (auto intro: same_elsewhere_trans)
  next
    case (Some err)
    with Cons.prems(2) r have "e = Some err" "c' = c1" "w' = w1" by simp_all
    with fr show ?thesis by simp
  qed
qed

lemma header_elsewhere:
  "same_elsewhere od w w' \<Longrightarrow>
   fmlookup (files w') (path_join od ''header'') = fmlookup (files w) (path_join od ''header'')"
  by (simp add: same_elsewhere_def header_not_chunk)

text \<open>
  Claim C4.  In an encode session (the chunker has been created) whose list of names
  holds the name \<open>name\<close> a second time, \<^verbatim>\<open>encode\<close> returns its error flag and the
  header file of the output directory is as it was before, absent if it was absent; and
  when the entries before the second occurrence have been consumed, consuming it raises
  \<^verbatim>\<open>KeyError\<close> ("already exists in this chunker") and changes nothing.
\<close>

theorem encode_duplicate_name:
  assumes "chunker_init od mb w = (None, c0, w0)" "name \<in> set names1"
  shows "(\<exists>w'. encode_files dump w base (names1 @ name # names2) od mb = (Inr True, w') \<and>
            fmlookup (files w') (path_join od ''header'') =
            fmlookup (files w) (path_join od ''header'')) \<and>
         (\<forall>c1 w1. encode_loop c0 w0 base names1 = (None, c1, w1) \<longrightarrow>
            read_from_path c1 w1 (path_join base name) name = (Some KeyError, c1, w1))"
proof
  let ?names = "names1 @ name # names2"
  from chunker_init_frame [OF assms(1)] have i: "writes_chunks c0 od" "same_elsewhere od w w0"
    by simp_all
  obtain e1 c1 w1 where l: "encode_loop c0 w0 base ?names = (e1, c1, w1)"
    by (cases "encode_loop c0 w0 base ?names") auto
  from encode_loop_frame [OF i(1) l] have fr: "writes_chunks c1 od" "same_elsewhere od w0 w1"
    "e1 = None \<longrightarrow> distinct ?names" by simp_all
  from assms(2) have "\<not> distinct ?names" by simp
  with fr(3) obtain err where e1: "e1 = Some err" by (cases e1) auto
  from fr(1) obtain f where f: "chunk c1 = Some f" by (auto simp: writes_chunks_def)
  obtain f' w2 where cl: "wclose w1 f = (f', w2)" by (cases "wclose w1 f") auto
  then have f2: "files w2 = files w1" by (auto simp: wclose_def release_def split: if_splits)
  have "encode_files dump w base ?names od mb = (Inr True, w2)"
    by (simp add: encode_files_def assms(1) l e1 chunker_close_def f cl Let_def)
  moreover have "same_elsewhere od w w2"
    using i(2) fr(2) f2 by (simp add: same_elsewhere_def)
  ultimately show "\<exists>w'. encode_files dump w base ?names od mb = (Inr True, w') \<and>
            fmlookup (files w') (path_join od ''header'') =
            fmlookup (files w) (path_join od ''header'')"
    by (auto dest: header_elsewhere)
next
  from chunker_init_frame [OF assms(1)] have i: "writes_chunks c0 od" by simp
  show "\<forall>c1 w1. encode_loop c0 w0 base names1 = (None, c1, w1) \<longrightarrow>
            read_from_path c1 w1 (path_join base name) name = (Some KeyError, c1, w1)"
  proof (intro allI impI)
    fix c1 w1 assume l: "encode_loop c0 w0 base names1 = (None, c1, w1)"
    from encode_loop_frame [OF i l] assms(2)
    have "can_write c1" "name \<in> fst ` set (file_positions c1)"
      by (auto simp: writes_chunks_def)
    then show "read_from_path c1 w1 (path_join base name) name = (Some KeyError, c1, w1)"
      by (rule read_from_path_duplicate)
  qed
qed

theorem encode_duplicate_name_witness:
  "chunker_init ''/out'' 1 ex_src_world = (None, fst (snd ex_started), snd (snd ex_started)) \<and>
   ''f'' \<in> set [''f''] \<and>
   fst (encode_files (\<lambda>_. []) ex_src_world ''/src'' ([''f''] @ ''f'' # []) ''/out'' 1) = Inr True \<and>
   fmlookup (files (snd (encode_files (\<lambda>_. []) ex_src_world ''/src'' ([''f''] @ ''f'' # []) ''/out'' 1)))
      (path_join ''/out'' ''header'') = fmlookup (files ex_src_world) (path_join ''/out'' ''header'') \<and>
   read_from_path (fst (snd ex_consumed)) (snd (snd ex_consumed)) (path_join ''/src'' ''f'') ''f''
      = (Some KeyError, fst (snd ex_consumed), snd (snd ex_consumed))"
proof -
  have h1: "chunker_init ''/out'' 1 ex_src_world = (None, fst (snd ex_started), snd (snd ex_started))"
    unfolding ex_started_def [symmetric] by (simp add: ex_started_eval)
  have h2: "''f'' \<in> set [''f'']" by simp
  have l: "encode_loop (fst (snd ex_started)) (snd (snd ex_started)) ''/src'' [''f'']
      = (None, fst (snd ex_consumed), snd (snd ex_consumed))"
  proof -
    have "read_from_path (fst (snd ex_started)) (snd (snd ex_started)) (path_join ''/src'' ''f'') ''f''
        = ex_consumed"
      by (simp add: ex_consumed_def path_join_def)
    then show ?thesis by (simp add: ex_consumed_eval)
  qed
  from encode_duplicate_name [OF h1 h2, of "\<lambda>_. []" "''/src''" "[]"]
  obtain w' where r: "encode_files (\<lambda>_. []) ex_src_world ''/src'' ([''f''] @ ''f'' # []) ''/out'' 1
        = (Inr True, w')"
    and hd: "fmlookup (files w') (path_join ''/out'' ''header'') =
            fmlookup (files ex_src_world) (path_join ''/out'' ''header'')"
    and dup: "\<forall>c1 w1. encode_loop (fst (snd ex_started)) (snd (snd ex_started)) ''/src'' [''f'']
          = (None, c1, w1) \<longrightarrow>
            read_from_path c1 w1 (path_join ''/src'' ''f'') ''f'' = (Some KeyError, c1, w1)"
    by blast
  from dup l have k: "read_from_path (fst (snd ex_consumed)) (snd (snd ex_consumed))
      (path_join ''/src'' ''f'') ''f'' = (Some KeyError, fst (snd ex_consumed), snd (snd ex_consumed))"
    by blast
  show ?thesis unfolding r using h1 h2 hd k by simp
qed

section \<open>The order of the positions in the header\<close>









end
